theory Spec2Isabelle
  imports Complex_Main
begin

section \<open>Tokens\<close>

text \<open>
  Modelled from the spec: the enumeration \<^verbatim>\<open>TokenType\<close> is declared in the header
  \<^verbatim>\<open>lex.h\<close>, which is not among the sources.  The kinds are those of the spec's data
  model; the lexer and the parser name each of them.
\<close>

datatype TokenType =
    NUMBER | IDENTIFIER | BOOLEAN_TRUE | BOOLEAN_FALSE | ASSIGN
  | LOGICAL_OR | LOGICAL_XOR | LOGICAL_AND | EQUAL | NOT_EQUAL
  | LESS | LESS_EQUAL | GREATER | GREATER_EQUAL
  | ADD | SUBTRACT | MULTIPLY | DIVIDE | MODULO
  | LEFT_PAREN | RIGHT_PAREN | UNKNOWN

text \<open>
  Modelled from the spec: the structure \<^verbatim>\<open>Token\<close> is declared in the same header.  Its
  four members are the kind, the text, the line and the column, in the order of the
  braced initialisers of the lexer; the parser reads them as \<^verbatim>\<open>type\<close>, \<^verbatim>\<open>value\<close>,
  \<^verbatim>\<open>line\<close> and \<^verbatim>\<open>column\<close>.  The member \<^verbatim>\<open>value\<close> is the selector \<open>tvalue\<close>.  Lines and
  columns are C++ \<^verbatim>\<open>int\<close>s; they only ever grow by one per character read, so they are
  unbounded integers here.
\<close>

datatype Token = Token (type: TokenType) (tvalue: string) (line: int) (column: int)

section \<open>Lexer\<close>

text \<open>
  The lexer object, with the members its constructor initialises: the unread rest of
  the input stream and the position counters \<^verbatim>\<open>line\<close> (the field \<open>cur_line\<close>) and
  \<^verbatim>\<open>col\<close>, both starting at 1.
\<close>

record Lexer =
  inputStream :: string
  cur_line :: int
  col :: int

definition Lexer_init :: "string \<Rightarrow> Lexer" where
  "Lexer_init input = \<lparr>inputStream = input, cur_line = 1, col = 1\<rparr>"

text \<open>\<^verbatim>\<open>inputStream.peek()\<close>: the next character, or \<open>None\<close> for \<^verbatim>\<open>EOF\<close>.\<close>

definition peek :: "Lexer \<Rightarrow> char option" where
  "peek lx = (case inputStream lx of [] \<Rightarrow> None | c # _ \<Rightarrow> Some c)"

text \<open>
  An \<^verbatim>\<open>int\<close> from \<^verbatim>\<open>peek()\<close> or \<^verbatim>\<open>get()\<close> converted to \<^verbatim>\<open>char\<close>: \<^verbatim>\<open>EOF\<close> (-1) becomes
  the byte 0xFF.
\<close>

definition to_char :: "char option \<Rightarrow> char" where
  "to_char r = (case r of None \<Rightarrow> CHR 0xFF | Some c \<Rightarrow> c)"

text \<open>
  \<^verbatim>\<open>consume()\<close> reads one character and moves the position: a newline starts the next
  line at column 1, any other character (also the \<^verbatim>\<open>EOF\<close> result) adds one column.
\<close>

definition consume :: "Lexer \<Rightarrow> char \<times> Lexer" where
  "consume lx =
     (let current = to_char (peek lx);
          lx1 = lx\<lparr>inputStream := drop 1 (inputStream lx)\<rparr>
      in if current = CHR 0x0A
         then (current, lx1\<lparr>cur_line := cur_line lx + 1, col := 1\<rparr>)
         else (current, lx1\<lparr>col := col lx + 1\<rparr>))"

text \<open>\<^verbatim>\<open>std::isdigit\<close> and \<^verbatim>\<open>std::isspace\<close> in the "C" locale.\<close>

definition std_isdigit :: "char \<Rightarrow> bool" where
  "std_isdigit c \<longleftrightarrow> (48::nat) \<le> of_char c \<and> of_char c \<le> (57::nat)"

definition std_isspace :: "char \<Rightarrow> bool" where
  "std_isspace c \<longleftrightarrow>
     c = CHR '' '' \<or> c = CHR 0x09 \<or> c = CHR 0x0A \<or> c = CHR 0x0B \<or> c = CHR 0x0C \<or> c = CHR 0x0D"

definition isDigit :: "char \<Rightarrow> bool" where
  "isDigit c \<longleftrightarrow> std_isdigit c \<or> c = CHR ''.''"

definition isOperator :: "char \<Rightarrow> bool" where
  "isOperator c \<longleftrightarrow> c = CHR ''+'' \<or> c = CHR ''-'' \<or> c = CHR ''*'' \<or> c = CHR ''/''"

lemma isDigit_at_input: "isDigit (to_char (peek lx)) \<Longrightarrow> inputStream lx \<noteq> []"
  by (auto simp: isDigit_def std_isdigit_def to_char_def peek_def)

lemma peek_Some_input: "peek lx = Some c \<Longrightarrow> inputStream lx \<noteq> []"
  by (auto simp: peek_def)

lemma consume_shorter:
  "inputStream lx \<noteq> [] \<Longrightarrow> length (inputStream (snd (consume lx))) < length (inputStream lx)"
  by (simp add: consume_def Let_def)

text \<open>
  The \<^verbatim>\<open>while\<close> loop of \<^verbatim>\<open>number()\<close>, with its locals \<^verbatim>\<open>startCol\<close>, \<^verbatim>\<open>num\<close> and
  \<^verbatim>\<open>hasDecimal\<close>.  It leaves with a token at a second decimal point, and otherwise
  with the text read when the next character is no digit and no point.
\<close>

function number_loop :: "int \<Rightarrow> string \<Rightarrow> bool \<Rightarrow> Lexer \<Rightarrow> (Token + string) \<times> Lexer" where
  "number_loop startCol num hasDecimal lx =
     (if isDigit (to_char (peek lx)) then
        (let c = fst (consume lx); lx1 = snd (consume lx) in
         if c = CHR ''.'' then
           if hasDecimal
           then (Inl (Token UNKNOWN (num @ [c]) (cur_line lx1) startCol), lx1)
           else number_loop startCol (num @ [c]) True lx1
         else number_loop startCol (num @ [c]) hasDecimal lx1)
      else (Inr num, lx))"
  by pat_completeness auto
termination
  by (relation "measure (\<lambda>(startCol, num, hasDecimal, lx). length (inputStream lx))")
     (auto simp: consume_shorter isDigit_at_input)

declare number_loop.simps [simp del]

lemma number_loop_unfold:
  "number_loop startCol num hasDecimal lx =
     (if isDigit (to_char (peek lx)) then
        if fst (consume lx) = CHR ''.'' then
          if hasDecimal
          then (Inl (Token UNKNOWN (num @ [fst (consume lx)]) (cur_line (snd (consume lx))) startCol),
                snd (consume lx))
          else number_loop startCol (num @ [fst (consume lx)]) True (snd (consume lx))
        else number_loop startCol (num @ [fst (consume lx)]) hasDecimal (snd (consume lx))
      else (Inr num, lx))"
  by (subst number_loop.simps) (simp add: Let_def)

lemma number_loop_not_longer:
  "length (inputStream (snd (number_loop startCol num hasDecimal lx))) \<le> length (inputStream lx)"
proof (induction startCol num hasDecimal lx rule: number_loop.induct)
  case (1 startCol num hasDecimal lx)
  show ?case
  proof (cases "isDigit (to_char (peek lx))")
    case False
    then show ?thesis by (subst number_loop_unfold) simp
  next
    case digit: True
    have less: "length (inputStream (snd (consume lx))) < length (inputStream lx)"
      using consume_shorter [OF isDigit_at_input [OF digit]] .
    show ?thesis
    proof (cases "fst (consume lx) = CHR ''.''")
      case dot: True
      show ?thesis
      proof (cases hasDecimal)
        case True
        with digit dot less show ?thesis
          by (subst number_loop_unfold) simp
      next
        case False
        from "1.IH"(1) [OF digit refl refl dot False]
        have "length (inputStream (snd (number_loop startCol (num @ [fst (consume lx)]) True
                (snd (consume lx))))) \<le> length (inputStream (snd (consume lx)))" .
        with less have "length (inputStream (snd (number_loop startCol (num @ [fst (consume lx)]) True
                (snd (consume lx))))) \<le> length (inputStream lx)"
          by simp
        with digit dot False show ?thesis
          by (subst number_loop_unfold) simp
      qed
    next
      case nodot: False
      from "1.IH"(2) [OF digit refl refl nodot]
      have "length (inputStream (snd (number_loop startCol (num @ [fst (consume lx)]) hasDecimal
              (snd (consume lx))))) \<le> length (inputStream (snd (consume lx)))" .
      with less have "length (inputStream (snd (number_loop startCol (num @ [fst (consume lx)])
              hasDecimal (snd (consume lx))))) \<le> length (inputStream lx)"
        by simp
      with digit nodot show ?thesis
        by (subst number_loop_unfold) simp
    qed
  qed
qed

lemma number_loop_shorter:
  assumes "isDigit (to_char (peek lx))"
  shows "length (inputStream (snd (number_loop startCol num hasDecimal lx))) < length (inputStream lx)"
proof -
  have less: "length (inputStream (snd (consume lx))) < length (inputStream lx)"
    using consume_shorter [OF isDigit_at_input [OF assms]] .
  have "length (inputStream (snd (number_loop startCol n b (snd (consume lx)))))
          < length (inputStream lx)" for b n
    using less number_loop_not_longer [of startCol n b "snd (consume lx)"]
    by simp
  with assms less show ?thesis
    by (subst number_loop_unfold) simp
qed

text \<open>
  \<^verbatim>\<open>number()\<close>.  After the loop the text is rejected when it starts or ends with a
  point.  \<^verbatim>\<open>num.front()\<close> and \<^verbatim>\<open>num.back()\<close> of an empty string are undefined in C++:
  that case is \<open>None\<close> (the caller only scans a number at a digit or a point, where
  the text is not empty).
\<close>

definition number :: "Lexer \<Rightarrow> (Token \<times> Lexer) option" where
  "number lx =
     (let startCol = col lx in
      case number_loop startCol [] False lx of
        (Inl tok, lx1) \<Rightarrow> Some (tok, lx1)
      | (Inr num, lx1) \<Rightarrow>
          if num = [] then None
          else if hd num = CHR ''.'' \<or> last num = CHR ''.''
          then Some (Token UNKNOWN num (cur_line lx1) startCol, lx1)
          else Some (Token NUMBER num (cur_line lx1) startCol, lx1))"

text \<open>\<^verbatim>\<open>op()\<close>: one operator character, positioned at the column before it was read.\<close>

definition op :: "Lexer \<Rightarrow> Token \<times> Lexer" where
  "op lx =
     (let startCol = col lx;
          c = fst (consume lx);
          lx1 = snd (consume lx)
      in if c = CHR ''+'' then (Token ADD ''+'' (cur_line lx1) startCol, lx1)
         else if c = CHR ''-'' then (Token SUBTRACT ''-'' (cur_line lx1) startCol, lx1)
         else if c = CHR ''*'' then (Token MULTIPLY ''*'' (cur_line lx1) startCol, lx1)
         else if c = CHR ''/'' then (Token DIVIDE ''/'' (cur_line lx1) startCol, lx1)
         else (Token UNKNOWN [c] (cur_line lx1) startCol, lx1))"

lemma number_shorter:
  assumes "isDigit (to_char (peek lx))" and "number lx = Some (tok, lx1)"
  shows "length (inputStream lx1) < length (inputStream lx)"
proof -
  have "lx1 = snd (number_loop (col lx) [] False lx)"
    using assms(2) by (auto simp: number_def Let_def split: prod.splits sum.splits if_splits)
  then show ?thesis
    using number_loop_shorter [OF assms(1)] by simp
qed

lemma op_shorter:
  assumes "inputStream lx \<noteq> []" and "(tok, lx1) = op lx"
  shows "length (inputStream lx1) < length (inputStream lx)"
proof -
  have "lx1 = snd (consume lx)"
    using assms(2) by (auto simp: op_def Let_def split: if_splits)
  then show ?thesis
    using consume_shorter [OF assms(1)] by simp
qed

text \<open>
  The loop of \<^verbatim>\<open>tokenize()\<close> over the local vector \<^verbatim>\<open>tokens\<close>.  The result is the
  vector returned and the lexer as the call leaves it.  In the last branch the braced
  initialiser evaluates \<^verbatim>\<open>consume()\<close> first and reads \<^verbatim>\<open>line\<close> and \<^verbatim>\<open>col\<close> after it.
\<close>

function tokenize_loop :: "Token list \<Rightarrow> Lexer \<Rightarrow> (Token list \<times> Lexer) option" where
  "tokenize_loop tokens lx =
     (case peek lx of
        None \<Rightarrow> Some (tokens @ [Token UNKNOWN ''END'' (cur_line lx) (col lx)], lx)
      | Some c \<Rightarrow>
          if std_isspace c then tokenize_loop tokens (snd (consume lx))
          else if c = CHR ''('' then
            tokenize_loop (tokens @ [Token LEFT_PAREN ''('' (cur_line lx) (col lx)]) (snd (consume lx))
          else if c = CHR '')'' then
            tokenize_loop (tokens @ [Token RIGHT_PAREN '')'' (cur_line lx) (col lx)]) (snd (consume lx))
          else if isDigit c then
            (case number lx of
               None \<Rightarrow> None
             | Some (tok, lx1) \<Rightarrow> tokenize_loop (tokens @ [tok]) lx1)
          else if isOperator c then
            (let (tok, lx1) = op lx in tokenize_loop (tokens @ [tok]) lx1)
          else
            (let ch = fst (consume lx); lx1 = snd (consume lx)
             in Some (tokens @ [Token UNKNOWN [ch] (cur_line lx1) (col lx1)], lx1)))"
  by pat_completeness auto
termination
proof (relation "measure (\<lambda>(tokens, lx). length (inputStream lx))", goal_cases)
  case 1
  show ?case by simp
next
  case (2 tokens lx c)
  then show ?case by (simp add: consume_shorter peek_Some_input)
next
  case (3 tokens lx c)
  then show ?case by (simp add: consume_shorter peek_Some_input)
next
  case (4 tokens lx c)
  then show ?case by (simp add: consume_shorter peek_Some_input)
next
  case (5 tokens lx c r tok lx1)
  then have "isDigit (to_char (peek lx))" and "number lx = Some (tok, lx1)"
    by (simp_all add: to_char_def)
  from number_shorter [OF this] show ?case by simp
next
  case (6 tokens lx c r tok lx1)
  then have "inputStream lx \<noteq> []" and "(tok, lx1) = op lx"
    by (simp_all add: peek_Some_input)
  from op_shorter [OF this] show ?case by simp
qed

declare tokenize_loop.simps [simp del]

definition tokenize :: "string \<Rightarrow> Token list option" where
  "tokenize input = map_option fst (tokenize_loop [] (Lexer_init input))"

section \<open>Syntax trees and the free store\<close>

text \<open>
  Modelled from the spec: the enumeration \<^verbatim>\<open>NodeType\<close> is declared in the header
  \<^verbatim>\<open>infixParser.h\<close>, which is not among the sources.  The kinds are those of the
  spec's data model; the parser names each of them.  Several share their name with a
  token kind; both are written qualified from here on.
\<close>

datatype NodeType =
    NUMBER | BOOLEAN_LITERAL | IDENTIFIER | ASSIGN
  | LOGICAL_OR | LOGICAL_XOR | LOGICAL_AND | EQUAL | NOT_EQUAL
  | LESS_THAN | LESS_EQUAL | GREATER_THAN | GREATER_EQUAL
  | ADD | SUBTRACT | MULTIPLY | DIVIDE | MODULO

text \<open>
  Modelled from the spec: the structure \<^verbatim>\<open>Node\<close> is declared in the same header.  A
  node has its kind (the member \<^verbatim>\<open>type\<close>), a numeric and a name payload (the second
  and third argument of its constructor) and the vector \<^verbatim>\<open>children\<close> of owned
  subtrees.  The first field below is the object's address; it stands for the
  identity of the pointer and lets the model say which objects are live.  The
  numeric payload is a C++ \<^verbatim>\<open>double\<close>, kept as the real number it denotes.
\<close>

datatype Node = Node (addr: nat) (ntype: NodeType) (nvalue: real) (name: string) (children: "Node list")

datatype error =
    UnexpectedToken int int string
  | StodFailure

text \<open>
  \<open>UnexpectedToken l c v\<close> is the \<^verbatim>\<open>std::runtime_error\<close> whose message is
  \<^verbatim>\<open>"Unexpected token at line l column c: v\n"\<close>; \<open>StodFailure\<close> is the exception
  \<^verbatim>\<open>std::stod\<close> throws.  A call either returns, or throws, or has read the token
  vector past its end, which C++ leaves undefined.
\<close>

datatype 'a outcome = Returns 'a | Throws error | Undefined

text \<open>
  The parser object with its four members, and the free store: \<open>heap\<close> is the set of
  addresses of live \<^verbatim>\<open>Node\<close> objects and \<open>nextAddr\<close> the address the next \<^verbatim>\<open>new\<close>
  hands out (so it also counts the allocations made so far).
\<close>

record InfixParser =
  tokens :: "Token list"
  currentTokenIndex :: nat
  root :: "Node option"
  unmatchedParentheses :: int
  heap :: "nat set"
  nextAddr :: nat

definition InfixParser_init :: "Token list \<Rightarrow> InfixParser" where
  "InfixParser_init toks =
     \<lparr>tokens = toks, currentTokenIndex = 0, root = None, unmatchedParentheses = 0,
      heap = {}, nextAddr = 0\<rparr>"

text \<open>\<^verbatim>\<open>currentToken()\<close> is \<^verbatim>\<open>tokens[currentTokenIndex]\<close>; \<open>None\<close> past the end.\<close>

definition currentToken :: "InfixParser \<Rightarrow> Token option" where
  "currentToken s =
     (if currentTokenIndex s < length (tokens s) then Some (tokens s ! currentTokenIndex s)
      else None)"

definition advance :: "InfixParser \<Rightarrow> InfixParser" where
  "advance s = s\<lparr>currentTokenIndex := currentTokenIndex s + 1\<rparr>"

text \<open>
  \<^verbatim>\<open>new Node(type, value, name)\<close> yields a node without children at a fresh address;
  the forms with fewer arguments leave the payloads out, which are 0 and the empty
  name here (the spec gives an operator node no payload).  Allocation itself does not
  fail.  \<^verbatim>\<open>children.push_back\<close> appends one child.
\<close>

definition new_Node :: "NodeType \<Rightarrow> real \<Rightarrow> string \<Rightarrow> InfixParser \<Rightarrow> Node \<times> InfixParser" where
  "new_Node ty v nm s =
     (Node (nextAddr s) ty v nm [],
      s\<lparr>heap := insert (nextAddr s) (heap s), nextAddr := nextAddr s + 1\<rparr>)"

fun push_back :: "Node \<Rightarrow> Node \<Rightarrow> Node" where
  "push_back (Node a ty v nm cs) c = Node a ty v nm (cs @ [c])"

text \<open>
  \<^verbatim>\<open>clearTree(Node*& node)\<close>: nothing for a null pointer; otherwise the children are
  cleared first, the node is deleted, and the caller's pointer is set to null.  The
  result is the pointer as the call leaves it, and the state.
\<close>

fun delete_tree :: "Node \<Rightarrow> nat set \<Rightarrow> nat set" where
  "delete_tree (Node a ty v nm cs) h = fold delete_tree cs h - {a}"

fun clearTree :: "Node option \<Rightarrow> InfixParser \<Rightarrow> Node option \<times> InfixParser" where
  "clearTree None s = (None, s)"
| "clearTree (Some t) s = (None, s\<lparr>heap := delete_tree t (heap s)\<rparr>)"

text \<open>
  The handler \<^verbatim>\<open>catch (...) { clearTree(right); clearTree(node); throw; }\<close> of the
  levels with two locals, as the state it leaves.
\<close>

definition cleanup :: "Node option \<Rightarrow> Node option \<Rightarrow> InfixParser \<Rightarrow> InfixParser" where
  "cleanup right node s = snd (clearTree node (snd (clearTree right s)))"

section \<open>The precedence cascade\<close>

text \<open>
  One function per grammar level, as in the source, and one more for the \<^verbatim>\<open>while\<close>
  loop of each left-associative level (it carries the local \<^verbatim>\<open>node\<close>; the local
  \<^verbatim>\<open>right\<close> is null whenever the loop is entered).

  The argument \<open>stod\<close> is \<^verbatim>\<open>std::stod\<close>, with \<open>None\<close> where it throws.  The recursion
  of the source runs through three places: the loops, the right-hand side of an
  assignment, and \<^verbatim>\<open>expression()\<close> called by \<^verbatim>\<open>factor()\<close> after an opening
  parenthesis.  The argument \<open>n\<close> is fuel for them: every loop round, every nested
  assignment and every nested \<^verbatim>\<open>expression()\<close> takes one unit, and \<open>None\<close> means the
  fuel ran out.  The argument \<open>expr\<close> is \<^verbatim>\<open>expression()\<close> with the fuel left for it;
  \<open>expression\<close> below passes itself.
\<close>

type_synonym parser = "InfixParser \<Rightarrow> (Node outcome \<times> InfixParser) option"

definition factor :: "(string \<Rightarrow> real option) \<Rightarrow> parser \<Rightarrow> parser" where
  "factor stod expr s =
     (case currentToken s of
        None \<Rightarrow> Some (Undefined, s)
      | Some token \<Rightarrow>
          if type token = TokenType.NUMBER then
            (case stod (tvalue token) of
               None \<Rightarrow> Some (Throws StodFailure, snd (clearTree None s))
             | Some v \<Rightarrow>
                 (let (node, s1) = new_Node NodeType.NUMBER v [] s
                  in Some (Returns node, advance s1)))
          else if type token = TokenType.IDENTIFIER then
            (let (node, s1) = new_Node NodeType.IDENTIFIER 0 (tvalue token) s
             in Some (Returns node, advance s1))
          else if type token = TokenType.LEFT_PAREN then
            (case expr (advance (s\<lparr>unmatchedParentheses := unmatchedParentheses s + 1\<rparr>)) of
               None \<Rightarrow> None
             | Some (Undefined, s1) \<Rightarrow> Some (Undefined, s1)
             | Some (Throws e, s1) \<Rightarrow> Some (Throws e, snd (clearTree None s1))
             | Some (Returns node, s1) \<Rightarrow>
                 (case currentToken s1 of
                    None \<Rightarrow> Some (Undefined, s1)
                  | Some t \<Rightarrow>
                      if type t \<noteq> TokenType.RIGHT_PAREN then
                        (let (node1, s2) = clearTree (Some node) s1
                         in Some (Throws (UnexpectedToken (line t) (column t) (tvalue t)),
                                  snd (clearTree node1 s2)))
                      else Some (Returns node,
                                 advance (s1\<lparr>unmatchedParentheses := unmatchedParentheses s1 - 1\<rparr>))))
          else if type token = TokenType.BOOLEAN_TRUE then
            (let (node, s1) = new_Node NodeType.BOOLEAN_LITERAL 1 [] s
             in Some (Returns node, advance s1))
          else if type token = TokenType.BOOLEAN_FALSE then
            (let (node, s1) = new_Node NodeType.BOOLEAN_LITERAL 0 [] s
             in Some (Returns node, advance s1))
          else Some (Throws (UnexpectedToken (line token) (column token) (tvalue token)),
                     snd (clearTree None s)))"

fun multiplicativeExpression_loop :: "(string \<Rightarrow> real option) \<Rightarrow> parser \<Rightarrow> nat \<Rightarrow> Node \<Rightarrow> parser" where
  "multiplicativeExpression_loop stod expr 0 node s = None"
| "multiplicativeExpression_loop stod expr (Suc n) node s =
     (case currentToken s of
        None \<Rightarrow> Some (Undefined, s)
      | Some opTok \<Rightarrow>
          if type opTok = TokenType.MULTIPLY \<or> type opTok = TokenType.DIVIDE
             \<or> type opTok = TokenType.MODULO then
            (case factor stod expr (advance s) of
               None \<Rightarrow> None
             | Some (Undefined, s1) \<Rightarrow> Some (Undefined, s1)
             | Some (Throws e, s1) \<Rightarrow> Some (Throws e, cleanup None (Some node) s1)
             | Some (Returns right, s1) \<Rightarrow>
                 (let (newNode, s2) = new_Node (if type opTok = TokenType.MULTIPLY then NodeType.MULTIPLY
                             else if type opTok = TokenType.DIVIDE then NodeType.DIVIDE
                             else NodeType.MODULO) 0 [] s1
                  in multiplicativeExpression_loop stod expr n (push_back (push_back newNode node) right) s2))
          else Some (Returns node, s))"

definition multiplicativeExpression :: "(string \<Rightarrow> real option) \<Rightarrow> parser \<Rightarrow> nat \<Rightarrow> parser" where
  "multiplicativeExpression stod expr n s =
     (case factor stod expr s of
        None \<Rightarrow> None
      | Some (Returns node, s1) \<Rightarrow> multiplicativeExpression_loop stod expr n node s1
      | Some (Throws e, s1) \<Rightarrow> Some (Throws e, s1)
      | Some (Undefined, s1) \<Rightarrow> Some (Undefined, s1))"

fun additiveExpression_loop :: "(string \<Rightarrow> real option) \<Rightarrow> parser \<Rightarrow> nat \<Rightarrow> Node \<Rightarrow> parser" where
  "additiveExpression_loop stod expr 0 node s = None"
| "additiveExpression_loop stod expr (Suc n) node s =
     (case currentToken s of
        None \<Rightarrow> Some (Undefined, s)
      | Some opTok \<Rightarrow>
          if type opTok = TokenType.ADD \<or> type opTok = TokenType.SUBTRACT then
            (case multiplicativeExpression stod expr n (advance s) of
               None \<Rightarrow> None
             | Some (Undefined, s1) \<Rightarrow> Some (Undefined, s1)
             | Some (Throws e, s1) \<Rightarrow> Some (Throws e, cleanup None (Some node) s1)
             | Some (Returns right, s1) \<Rightarrow>
                 (let (newNode, s2) = new_Node (if type opTok = TokenType.ADD then NodeType.ADD
                             else NodeType.SUBTRACT) 0 [] s1
                  in additiveExpression_loop stod expr n (push_back (push_back newNode node) right) s2))
          else Some (Returns node, s))"

definition additiveExpression :: "(string \<Rightarrow> real option) \<Rightarrow> parser \<Rightarrow> nat \<Rightarrow> parser" where
  "additiveExpression stod expr n s =
     (case multiplicativeExpression stod expr n s of
        None \<Rightarrow> None
      | Some (Returns node, s1) \<Rightarrow> additiveExpression_loop stod expr n node s1
      | Some (Throws e, s1) \<Rightarrow> Some (Throws e, s1)
      | Some (Undefined, s1) \<Rightarrow> Some (Undefined, s1))"

fun relationalExpression_loop :: "(string \<Rightarrow> real option) \<Rightarrow> parser \<Rightarrow> nat \<Rightarrow> Node \<Rightarrow> parser" where
  "relationalExpression_loop stod expr 0 node s = None"
| "relationalExpression_loop stod expr (Suc n) node s =
     (case currentToken s of
        None \<Rightarrow> Some (Undefined, s)
      | Some opTok \<Rightarrow>
          if type opTok = TokenType.LESS \<or> type opTok = TokenType.LESS_EQUAL
             \<or> type opTok = TokenType.GREATER \<or> type opTok = TokenType.GREATER_EQUAL then
            (case additiveExpression stod expr n (advance s) of
               None \<Rightarrow> None
             | Some (Undefined, s1) \<Rightarrow> Some (Undefined, s1)
             | Some (Throws e, s1) \<Rightarrow> Some (Throws e, cleanup None (Some node) s1)
             | Some (Returns right, s1) \<Rightarrow>
                 (let (newNode, s2) = new_Node (if type opTok = TokenType.LESS then NodeType.LESS_THAN
                             else if type opTok = TokenType.LESS_EQUAL then NodeType.LESS_EQUAL
                             else if type opTok = TokenType.GREATER then NodeType.GREATER_THAN
                             else NodeType.GREATER_EQUAL) 0 [] s1
                  in relationalExpression_loop stod expr n (push_back (push_back newNode node) right) s2))
          else Some (Returns node, s))"

definition relationalExpression :: "(string \<Rightarrow> real option) \<Rightarrow> parser \<Rightarrow> nat \<Rightarrow> parser" where
  "relationalExpression stod expr n s =
     (case additiveExpression stod expr n s of
        None \<Rightarrow> None
      | Some (Returns node, s1) \<Rightarrow> relationalExpression_loop stod expr n node s1
      | Some (Throws e, s1) \<Rightarrow> Some (Throws e, s1)
      | Some (Undefined, s1) \<Rightarrow> Some (Undefined, s1))"

fun equalityExpression_loop :: "(string \<Rightarrow> real option) \<Rightarrow> parser \<Rightarrow> nat \<Rightarrow> Node \<Rightarrow> parser" where
  "equalityExpression_loop stod expr 0 node s = None"
| "equalityExpression_loop stod expr (Suc n) node s =
     (case currentToken s of
        None \<Rightarrow> Some (Undefined, s)
      | Some opTok \<Rightarrow>
          if type opTok = TokenType.EQUAL \<or> type opTok = TokenType.NOT_EQUAL then
            (case relationalExpression stod expr n (advance s) of
               None \<Rightarrow> None
             | Some (Undefined, s1) \<Rightarrow> Some (Undefined, s1)
             | Some (Throws e, s1) \<Rightarrow> Some (Throws e, cleanup None (Some node) s1)
             | Some (Returns right, s1) \<Rightarrow>
                 (let (newNode, s2) = new_Node (if type opTok = TokenType.EQUAL then NodeType.EQUAL
                             else NodeType.NOT_EQUAL) 0 [] s1
                  in equalityExpression_loop stod expr n (push_back (push_back newNode node) right) s2))
          else Some (Returns node, s))"

definition equalityExpression :: "(string \<Rightarrow> real option) \<Rightarrow> parser \<Rightarrow> nat \<Rightarrow> parser" where
  "equalityExpression stod expr n s =
     (case relationalExpression stod expr n s of
        None \<Rightarrow> None
      | Some (Returns node, s1) \<Rightarrow> equalityExpression_loop stod expr n node s1
      | Some (Throws e, s1) \<Rightarrow> Some (Throws e, s1)
      | Some (Undefined, s1) \<Rightarrow> Some (Undefined, s1))"

fun logicalAndExpression_loop :: "(string \<Rightarrow> real option) \<Rightarrow> parser \<Rightarrow> nat \<Rightarrow> Node \<Rightarrow> parser" where
  "logicalAndExpression_loop stod expr 0 node s = None"
| "logicalAndExpression_loop stod expr (Suc n) node s =
     (case currentToken s of
        None \<Rightarrow> Some (Undefined, s)
      | Some opTok \<Rightarrow>
          if type opTok = TokenType.LOGICAL_AND then
            (case equalityExpression stod expr n (advance s) of
               None \<Rightarrow> None
             | Some (Undefined, s1) \<Rightarrow> Some (Undefined, s1)
             | Some (Throws e, s1) \<Rightarrow> Some (Throws e, cleanup None (Some node) s1)
             | Some (Returns right, s1) \<Rightarrow>
                 (let (newNode, s2) = new_Node (NodeType.LOGICAL_AND) 0 [] s1
                  in logicalAndExpression_loop stod expr n (push_back (push_back newNode node) right) s2))
          else Some (Returns node, s))"

definition logicalAndExpression :: "(string \<Rightarrow> real option) \<Rightarrow> parser \<Rightarrow> nat \<Rightarrow> parser" where
  "logicalAndExpression stod expr n s =
     (case equalityExpression stod expr n s of
        None \<Rightarrow> None
      | Some (Returns node, s1) \<Rightarrow> logicalAndExpression_loop stod expr n node s1
      | Some (Throws e, s1) \<Rightarrow> Some (Throws e, s1)
      | Some (Undefined, s1) \<Rightarrow> Some (Undefined, s1))"

fun logicalXorExpression_loop :: "(string \<Rightarrow> real option) \<Rightarrow> parser \<Rightarrow> nat \<Rightarrow> Node \<Rightarrow> parser" where
  "logicalXorExpression_loop stod expr 0 node s = None"
| "logicalXorExpression_loop stod expr (Suc n) node s =
     (case currentToken s of
        None \<Rightarrow> Some (Undefined, s)
      | Some opTok \<Rightarrow>
          if type opTok = TokenType.LOGICAL_XOR then
            (case logicalAndExpression stod expr n (advance s) of
               None \<Rightarrow> None
             | Some (Undefined, s1) \<Rightarrow> Some (Undefined, s1)
             | Some (Throws e, s1) \<Rightarrow> Some (Throws e, cleanup None (Some node) s1)
             | Some (Returns right, s1) \<Rightarrow>
                 (let (newNode, s2) = new_Node (NodeType.LOGICAL_XOR) 0 [] s1
                  in logicalXorExpression_loop stod expr n (push_back (push_back newNode node) right) s2))
          else Some (Returns node, s))"

definition logicalXorExpression :: "(string \<Rightarrow> real option) \<Rightarrow> parser \<Rightarrow> nat \<Rightarrow> parser" where
  "logicalXorExpression stod expr n s =
     (case logicalAndExpression stod expr n s of
        None \<Rightarrow> None
      | Some (Returns node, s1) \<Rightarrow> logicalXorExpression_loop stod expr n node s1
      | Some (Throws e, s1) \<Rightarrow> Some (Throws e, s1)
      | Some (Undefined, s1) \<Rightarrow> Some (Undefined, s1))"

fun logicalOrExpression_loop :: "(string \<Rightarrow> real option) \<Rightarrow> parser \<Rightarrow> nat \<Rightarrow> Node \<Rightarrow> parser" where
  "logicalOrExpression_loop stod expr 0 node s = None"
| "logicalOrExpression_loop stod expr (Suc n) node s =
     (case currentToken s of
        None \<Rightarrow> Some (Undefined, s)
      | Some opTok \<Rightarrow>
          if type opTok = TokenType.LOGICAL_OR then
            (case logicalXorExpression stod expr n (advance s) of
               None \<Rightarrow> None
             | Some (Undefined, s1) \<Rightarrow> Some (Undefined, s1)
             | Some (Throws e, s1) \<Rightarrow> Some (Throws e, cleanup None (Some node) s1)
             | Some (Returns right, s1) \<Rightarrow>
                 (let (newNode, s2) = new_Node (NodeType.LOGICAL_OR) 0 [] s1
                  in logicalOrExpression_loop stod expr n (push_back (push_back newNode node) right) s2))
          else Some (Returns node, s))"

definition logicalOrExpression :: "(string \<Rightarrow> real option) \<Rightarrow> parser \<Rightarrow> nat \<Rightarrow> parser" where
  "logicalOrExpression stod expr n s =
     (case logicalXorExpression stod expr n s of
        None \<Rightarrow> None
      | Some (Returns node, s1) \<Rightarrow> logicalOrExpression_loop stod expr n node s1
      | Some (Throws e, s1) \<Rightarrow> Some (Throws e, s1)
      | Some (Undefined, s1) \<Rightarrow> Some (Undefined, s1))"

text \<open>
  The assignment level: the left operand is parsed before the \<^verbatim>\<open>try\<close> block; inside
  it, an \<^verbatim>\<open>=\<close> after a node that is no identifier clears the node and throws, and
  otherwise the right-hand side is parsed by the level itself.
\<close>

fun assignmentExpression :: "(string \<Rightarrow> real option) \<Rightarrow> parser \<Rightarrow> nat \<Rightarrow> parser" where
  "assignmentExpression stod expr 0 s = None"
| "assignmentExpression stod expr (Suc n) s =
     (case logicalOrExpression stod expr n s of
        None \<Rightarrow> None
      | Some (Undefined, s1) \<Rightarrow> Some (Undefined, s1)
      | Some (Throws e, s1) \<Rightarrow> Some (Throws e, s1)
      | Some (Returns node, s1) \<Rightarrow>
          (case currentToken s1 of
             None \<Rightarrow> Some (Undefined, s1)
           | Some opTok \<Rightarrow>
               if type opTok = TokenType.ASSIGN then
                 if ntype node \<noteq> NodeType.IDENTIFIER then
                   (let (node1, s2) = clearTree (Some node) s1
                    in Some (Throws (UnexpectedToken (line opTok) (column opTok) (tvalue opTok)),
                             cleanup None node1 s2))
                 else
                   (case assignmentExpression stod expr n (advance s1) of
                      None \<Rightarrow> None
                    | Some (Undefined, s2) \<Rightarrow> Some (Undefined, s2)
                    | Some (Throws e, s2) \<Rightarrow> Some (Throws e, cleanup None (Some node) s2)
                    | Some (Returns valueNode, s2) \<Rightarrow>
                        (let (assignNode, s3) = new_Node NodeType.ASSIGN 0 [] s2
                         in Some (Returns (push_back (push_back assignNode node) valueNode), s3)))
               else Some (Returns node, s1)))"

fun expression :: "(string \<Rightarrow> real option) \<Rightarrow> nat \<Rightarrow> parser" where
  "expression stod 0 s = None"
| "expression stod (Suc n) s =
     (case assignmentExpression stod (expression stod n) (Suc n) s of
        None \<Rightarrow> None
      | Some (Undefined, s1) \<Rightarrow> Some (Undefined, s1)
      | Some (Throws e, s1) \<Rightarrow> Some (Throws e, snd (clearTree None s1))
      | Some (Returns node, s1) \<Rightarrow> Some (Returns node, s1))"

section \<open>Statements\<close>

text \<open>
  The two clean-up loops of \<^verbatim>\<open>parse()\<close> over the vector \<^verbatim>\<open>statements\<close>, whose elements
  are pointers (null once cleared).  The loop before the \<^verbatim>\<open>throw\<close> clears \<^verbatim>\<open>root\<close>
  inside its body; the handler clears every statement and then \<^verbatim>\<open>root\<close>.
\<close>

fun clear_before_throw :: "Node option list \<Rightarrow> InfixParser \<Rightarrow> Node option list \<times> InfixParser" where
  "clear_before_throw [] s = ([], s)"
| "clear_before_throw (stmt # rest) s =
     (let (stmt1, s1) = clearTree stmt s;
          (root1, s2) = clearTree (root s1) s1;
          (rest1, s3) = clear_before_throw rest (s2\<lparr>root := root1\<rparr>)
      in (stmt1 # rest1, s3))"

fun clear_statements :: "Node option list \<Rightarrow> InfixParser \<Rightarrow> Node option list \<times> InfixParser" where
  "clear_statements [] s = ([], s)"
| "clear_statements (stmt # rest) s =
     (let (stmt1, s1) = clearTree stmt s;
          (rest1, s2) = clear_statements rest s1
      in (stmt1 # rest1, s2))"

definition parse_handler :: "Node option list \<Rightarrow> InfixParser \<Rightarrow> InfixParser" where
  "parse_handler statements s =
     (let (statements1, s1) = clear_statements statements s;
          (root1, s2) = clearTree (root s1) s1
      in s2\<lparr>root := root1\<rparr>)"

text \<open>
  The \<^verbatim>\<open>while\<close> loop of \<^verbatim>\<open>parse()\<close> with its locals \<^verbatim>\<open>statements\<close> and
  \<^verbatim>\<open>statementLine\<close>.  The local \<^verbatim>\<open>stmt\<close> of the loop body is the node \<open>stmt\<close> below; the
  loop variable of the clean-up loops has the same name in the source and hides it
  there.
\<close>

fun parse_loop ::
  "(string \<Rightarrow> real option) \<Rightarrow> nat \<Rightarrow> Node option list \<Rightarrow> int \<Rightarrow> InfixParser
     \<Rightarrow> (Node option list outcome \<times> InfixParser) option" where
  "parse_loop stod 0 statements statementLine s = None"
| "parse_loop stod (Suc n) statements statementLine s =
     (case currentToken s of
        None \<Rightarrow> Some (Undefined, s)
      | Some tok \<Rightarrow>
          if type tok \<noteq> TokenType.UNKNOWN then
            (case expression stod n s of
               None \<Rightarrow> None
             | Some (Undefined, s1) \<Rightarrow> Some (Undefined, s1)
             | Some (Throws e, s1) \<Rightarrow> Some (Throws e, parse_handler statements s1)
             | Some (Returns stmt, s1) \<Rightarrow>
                 (case currentToken s1 of
                    None \<Rightarrow> Some (Undefined, s1)
                  | Some nxt \<Rightarrow>
                      if type nxt = TokenType.UNKNOWN \<or> line nxt > statementLine then
                        parse_loop stod n (statements @ [Some stmt])
                          (if type nxt \<noteq> TokenType.UNKNOWN then line nxt else statementLine) s1
                      else
                        (let (statements1, s2) = clear_before_throw statements s1
                         in Some (Throws (UnexpectedToken (line nxt) (column nxt) (tvalue nxt)),
                                  parse_handler statements1 s2))))
          else Some (Returns statements, s))"

definition parse ::
  "(string \<Rightarrow> real option) \<Rightarrow> nat \<Rightarrow> InfixParser
     \<Rightarrow> (Node option list outcome \<times> InfixParser) option" where
  "parse stod n s =
     (case currentToken s of
        None \<Rightarrow> Some (Undefined, s)
      | Some tok \<Rightarrow> parse_loop stod n [] (line tok) s)"

section \<open>Notions for the statements and the proofs\<close>

subsection \<open>Texts and positions\<close>

text \<open>
  The characters for which \<^verbatim>\<open>tokenize()\<close> has a branch of its own; any other character
  takes the last branch, which stops the lexer.
\<close>

definition recognised :: "char \<Rightarrow> bool" where
  "recognised c \<longleftrightarrow>
     std_isspace c \<or> c = CHR ''('' \<or> c = CHR '')'' \<or> isDigit c \<or> isOperator c"

text \<open>
  The position, as a reader counts it, of the character that follows the text \<open>pre\<close>:
  its line is one more than the number of newlines in \<open>pre\<close>, its column one more than
  the number of characters after the last newline of \<open>pre\<close>.
\<close>

definition line_of :: "string \<Rightarrow> int" where
  "line_of pre = 1 + int (length (filter (\<lambda>x. x = CHR 0x0A) pre))"

definition column_of :: "string \<Rightarrow> int" where
  "column_of pre = 1 + int (length (takeWhile (\<lambda>x. x \<noteq> CHR 0x0A) (rev pre)))"

text \<open>
  Tools for the proofs: a lexer with more input behind its own, the position after
  reading a text, and the fact that a lexer has read the text \<open>ds\<close> on its way to a later
  state.
\<close>

definition followed_by :: "Lexer \<Rightarrow> string \<Rightarrow> Lexer" where
  "followed_by lx ys = lx\<lparr>inputStream := inputStream lx @ ys\<rparr>"

fun pos_after :: "string \<Rightarrow> int \<times> int \<Rightarrow> int \<times> int" where
  "pos_after [] p = p"
| "pos_after (x # xs) (l, k) = pos_after xs (if x = CHR 0x0A then (l + 1, 1) else (l, k + 1))"

definition reads :: "Lexer \<Rightarrow> string \<Rightarrow> Lexer \<Rightarrow> bool" where
  "reads lx ds lx1 \<longleftrightarrow>
     inputStream lx = ds @ inputStream lx1
     \<and> (cur_line lx1, col lx1) = pos_after ds (cur_line lx, col lx)"

text \<open>
  The two runs that the statements on the stopping branch compare: the lexer on a
  text of characters it knows, which ends with the sentinel, and the lexer on the
  same text followed by a character \<open>c\<close> it does not know and anything else.
\<close>

definition stops_at :: "Token list \<Rightarrow> Lexer \<Rightarrow> char \<Rightarrow> string \<Rightarrow> bool" where
  "stops_at toks lx c rest \<longleftrightarrow>
     (\<exists>ts lx'.
        tokenize_loop toks lx =
          Some (toks @ ts @ [Token TokenType.UNKNOWN ''END'' (cur_line lx') (col lx')], lx')
        \<and> inputStream lx' = []
        \<and> reads lx (inputStream lx) lx'
        \<and> tokenize_loop toks (followed_by lx (c # rest)) =
            Some (toks @ ts @ [Token TokenType.UNKNOWN [c] (cur_line lx') (col lx' + 1)],
                  lx'\<lparr>inputStream := rest, col := col lx' + 1\<rparr>))"

subsection \<open>Operators\<close>

text \<open>
  The operator tokens of the seven left-associative levels, as the loop conditions of
  the source list them, each with its level (1 for \<^verbatim>\<open>logicalOrExpression\<close> up to 7 for
  \<^verbatim>\<open>multiplicativeExpression\<close>) and the node kind its loop allocates.
\<close>

fun operator_table :: "TokenType \<Rightarrow> (nat \<times> NodeType) option" where
  "operator_table TokenType.LOGICAL_OR = Some (1, NodeType.LOGICAL_OR)"
| "operator_table TokenType.LOGICAL_XOR = Some (2, NodeType.LOGICAL_XOR)"
| "operator_table TokenType.LOGICAL_AND = Some (3, NodeType.LOGICAL_AND)"
| "operator_table TokenType.EQUAL = Some (4, NodeType.EQUAL)"
| "operator_table TokenType.NOT_EQUAL = Some (4, NodeType.NOT_EQUAL)"
| "operator_table TokenType.LESS = Some (5, NodeType.LESS_THAN)"
| "operator_table TokenType.LESS_EQUAL = Some (5, NodeType.LESS_EQUAL)"
| "operator_table TokenType.GREATER = Some (5, NodeType.GREATER_THAN)"
| "operator_table TokenType.GREATER_EQUAL = Some (5, NodeType.GREATER_EQUAL)"
| "operator_table TokenType.ADD = Some (6, NodeType.ADD)"
| "operator_table TokenType.SUBTRACT = Some (6, NodeType.SUBTRACT)"
| "operator_table TokenType.MULTIPLY = Some (7, NodeType.MULTIPLY)"
| "operator_table TokenType.DIVIDE = Some (7, NodeType.DIVIDE)"
| "operator_table TokenType.MODULO = Some (7, NodeType.MODULO)"
| "operator_table _ = None"

subsection \<open>Which nodes are live\<close>

text \<open>The addresses of the nodes of a tree.\<close>

fun addrs :: "Node \<Rightarrow> nat set" where
  "addrs (Node a ty v nm cs) = insert a (\<Union> (addrs ` set cs))"

text \<open>
  A state of the free store that an execution can reach: every live address was
  handed out before.
\<close>

definition store_ok :: "InfixParser \<Rightarrow> bool" where
  "store_ok s \<longleftrightarrow> heap s \<subseteq> {..<nextAddr s}"

text \<open>
  What a call of a parsing function does to the free store.  When it returns a tree,
  the nodes of the tree are new and they are exactly what the call adds to the live
  objects; when it throws, the live objects are those of before the call.  Nothing is
  said of a call that reads past the token vector.
\<close>

definition tidy :: "parser \<Rightarrow> bool" where
  "tidy p \<longleftrightarrow>
     (\<forall>s r s'. store_ok s \<longrightarrow> p s = Some (r, s') \<longrightarrow>
        nextAddr s \<le> nextAddr s'
        \<and> (case r of
             Returns t \<Rightarrow> addrs t \<subseteq> {nextAddr s..<nextAddr s'} \<and> heap s' = heap s \<union> addrs t
           | Throws e \<Rightarrow> heap s' = heap s
           | Undefined \<Rightarrow> True))"

text \<open>
  The same for the loop of a level, which owns the live tree \<open>node\<close> when it starts:
  the tree it returns contains \<open>node\<close> and otherwise new nodes; when it throws, \<open>node\<close>
  is gone as well.
\<close>

definition tidy_loop :: "(Node \<Rightarrow> parser) \<Rightarrow> bool" where
  "tidy_loop lp \<longleftrightarrow>
     (\<forall>node s r s'. store_ok s \<longrightarrow> addrs node \<subseteq> heap s \<longrightarrow> lp node s = Some (r, s') \<longrightarrow>
        nextAddr s \<le> nextAddr s'
        \<and> (case r of
             Returns t \<Rightarrow>
               addrs node \<subseteq> addrs t \<and> addrs t \<subseteq> addrs node \<union> {nextAddr s..<nextAddr s'}
               \<and> heap s' = heap s \<union> addrs t
           | Throws e \<Rightarrow> heap s' = heap s - addrs node
           | Undefined \<Rightarrow> True))"

subsection \<open>The shape of a level\<close>

text \<open>
  One round of the loop of a left-associative level, for any operator test \<open>cond\<close>, any
  choice \<open>kind\<close> of the node kind, any operand parser \<open>opnd\<close> and any continuation \<open>lp\<close> (the
  loop with the fuel left).  The seven loops are instances.
\<close>

definition loop_round ::
  "(Token \<Rightarrow> bool) \<Rightarrow> (Token \<Rightarrow> NodeType) \<Rightarrow> parser \<Rightarrow> (Node \<Rightarrow> parser) \<Rightarrow> Node \<Rightarrow> parser" where
  "loop_round cond kind opnd lp node s =
     (case currentToken s of
        None \<Rightarrow> Some (Undefined, s)
      | Some opTok \<Rightarrow>
          if cond opTok then
            (case opnd (advance s) of
               None \<Rightarrow> None
             | Some (Undefined, s1) \<Rightarrow> Some (Undefined, s1)
             | Some (Throws e, s1) \<Rightarrow> Some (Throws e, cleanup None (Some node) s1)
             | Some (Returns right, s1) \<Rightarrow>
                 (let (newNode, s2) = new_Node (kind opTok) 0 [] s1
                  in lp (push_back (push_back newNode node) right) s2))
          else Some (Returns node, s))"

text \<open>A level: its first operand, then its loop.\<close>

definition level_of :: "parser \<Rightarrow> (Node \<Rightarrow> parser) \<Rightarrow> parser" where
  "level_of opnd lp s =
     (case opnd s of
        None \<Rightarrow> None
      | Some (Returns node, s1) \<Rightarrow> lp node s1
      | Some (Throws e, s1) \<Rightarrow> Some (Throws e, s1)
      | Some (Undefined, s1) \<Rightarrow> Some (Undefined, s1))"

subsection \<open>Runs with less and with more fuel\<close>

text \<open>
  A parsing function with less fuel is below the one with more when every run that
  comes to its end with less fuel ends in the same way with more.
\<close>

definition below :: "parser \<Rightarrow> parser \<Rightarrow> bool" where
  "below p q \<longleftrightarrow> (\<forall>s r. p s = Some r \<longrightarrow> q s = Some r)"

definition below_loop :: "(Node \<Rightarrow> parser) \<Rightarrow> (Node \<Rightarrow> parser) \<Rightarrow> bool" where
  "below_loop lp lq \<longleftrightarrow> (\<forall>node s r. lp node s = Some r \<longrightarrow> lq node s = Some r)"

section \<open>What the lexer reads, and where it stands\<close>

lemma followed_by_simps [simp]:
  "inputStream (followed_by lx ys) = inputStream lx @ ys"
  "cur_line (followed_by lx ys) = cur_line lx"
  "col (followed_by lx ys) = col lx"
  by (simp_all add: followed_by_def)

lemma peek_followed_by: "inputStream lx \<noteq> [] \<Longrightarrow> peek (followed_by lx ys) = peek lx"
  by (cases "inputStream lx") (simp_all add: peek_def)

lemma consume_followed_by:
  "inputStream lx \<noteq> [] \<Longrightarrow>
   consume (followed_by lx ys) = (fst (consume lx), followed_by (snd (consume lx)) ys)"
  by (cases "inputStream lx") (simp_all add: consume_def peek_def followed_by_def Let_def)

lemma peek_followed_by_eof:
  "inputStream lx = [] \<Longrightarrow> peek (followed_by lx (c # rest)) = Some c"
  by (simp add: peek_def)

lemma peek_eof: "inputStream lx = [] \<Longrightarrow> peek lx = None"
  by (simp add: peek_def)

lemma not_isDigit_eof: "\<not> isDigit (to_char None)"
  by (simp add: to_char_def isDigit_def std_isdigit_def)

lemma number_loop_followed_by:
  assumes "\<not> isDigit c"
  shows "number_loop sc num dec (followed_by lx (c # rest)) =
           (fst (number_loop sc num dec lx), followed_by (snd (number_loop sc num dec lx)) (c # rest))"
proof (induction sc num dec lx rule: number_loop.induct)
  case (1 startCol num hasDecimal lx)
  show ?case
  proof (cases "inputStream lx = []")
    case True
    then have "number_loop startCol num hasDecimal lx = (Inr num, lx)"
      by (subst number_loop_unfold) (simp add: peek_eof not_isDigit_eof)
    moreover have "number_loop startCol num hasDecimal (followed_by lx (c # rest)) =
                     (Inr num, followed_by lx (c # rest))"
      using True assms
      by (subst number_loop_unfold) (simp add: peek_followed_by_eof to_char_def)
    ultimately show ?thesis by simp
  next
    case ne: False
    show ?thesis
    proof (cases "isDigit (to_char (peek lx))")
      case False
      then show ?thesis
        using ne
        by (subst number_loop_unfold, subst (2 3) number_loop_unfold) (simp add: peek_followed_by)
    next
      case digit: True
      show ?thesis
      proof (cases "fst (consume lx) = CHR ''.''")
        case dot: True
        show ?thesis
        proof (cases hasDecimal)
          case True
          with digit dot ne show ?thesis
            by (subst number_loop_unfold, subst (2 3) number_loop_unfold)
               (simp add: peek_followed_by consume_followed_by)
        next
          case False
          from "1.IH"(1) [OF digit refl refl dot False] digit dot ne False show ?thesis
            by (subst number_loop_unfold, subst (2 3) number_loop_unfold)
               (simp add: peek_followed_by consume_followed_by)
        qed
      next
        case nodot: False
        from "1.IH"(2) [OF digit refl refl nodot] digit nodot ne show ?thesis
          by (subst number_loop_unfold, subst (2 3) number_loop_unfold)
             (simp add: peek_followed_by consume_followed_by)
      qed
    qed
  qed
qed

lemma number_followed_by:
  assumes "\<not> isDigit c"
  shows "number (followed_by lx (c # rest)) =
           map_option (\<lambda>(t, l). (t, followed_by l (c # rest))) (number lx)"
  by (simp add: number_def number_loop_followed_by [OF assms] Let_def split: prod.splits sum.splits)

lemma op_followed_by:
  "inputStream lx \<noteq> [] \<Longrightarrow> op (followed_by lx ys) = (fst (op lx), followed_by (snd (op lx)) ys)"
  by (simp add: op_def consume_followed_by Let_def)

lemma pos_after_append: "pos_after (ds @ es) p = pos_after es (pos_after ds p)"
  by (induction ds p rule: pos_after.induct) simp_all

lemma reads_refl: "reads lx [] lx"
  by (simp add: reads_def)

lemma reads_trans: "reads a ds b \<Longrightarrow> reads b es c \<Longrightarrow> reads a (ds @ es) c"
  by (simp add: reads_def pos_after_append)

lemma reads_consume: "inputStream lx = x # xs \<Longrightarrow> reads lx [x] (snd (consume lx))"
  by (simp add: reads_def consume_def peek_def to_char_def Let_def)

lemma reads_all: "reads lx ds lx1 \<Longrightarrow> inputStream lx1 = [] \<Longrightarrow> ds = inputStream lx"
  by (simp add: reads_def)

lemma number_loop_reads: "\<exists>ds. reads lx ds (snd (number_loop sc num dec lx))"
proof (induction sc num dec lx rule: number_loop.induct)
  case (1 startCol num hasDecimal lx)
  show ?case
  proof (cases "isDigit (to_char (peek lx))")
    case False
    then show ?thesis
      by (subst number_loop_unfold) (auto intro: reads_refl)
  next
    case digit: True
    then obtain x xs where x: "inputStream lx = x # xs"
      using isDigit_at_input by (cases "inputStream lx") auto
    note one = reads_consume [OF x]
    show ?thesis
    proof (cases "fst (consume lx) = CHR ''.''")
      case dot: True
      show ?thesis
      proof (cases hasDecimal)
        case True
        with digit dot one show ?thesis
          by (subst number_loop_unfold) auto
      next
        case False
        from "1.IH"(1) [OF digit refl refl dot False] obtain ds
          where "reads (snd (consume lx)) ds
                   (snd (number_loop startCol (num @ [fst (consume lx)]) True (snd (consume lx))))"
          by blast
        from reads_trans [OF one this] digit dot False show ?thesis
          by (subst number_loop_unfold) auto
      qed
    next
      case nodot: False
      from "1.IH"(2) [OF digit refl refl nodot] obtain ds
        where "reads (snd (consume lx)) ds
                 (snd (number_loop startCol (num @ [fst (consume lx)]) hasDecimal (snd (consume lx))))"
        by blast
      from reads_trans [OF one this] digit nodot show ?thesis
        by (subst number_loop_unfold) auto
    qed
  qed
qed

lemma number_reads: "number lx = Some (tok, lx1) \<Longrightarrow> \<exists>ds. reads lx ds lx1"
  using number_loop_reads [of lx "col lx" "[]" False]
  by (auto simp: number_def Let_def split: prod.splits sum.splits if_splits)

lemma number_loop_text:
  "fst (number_loop sc num dec lx) = Inr n \<Longrightarrow> isDigit (to_char (peek lx)) \<or> num \<noteq> [] \<Longrightarrow> n \<noteq> []"
proof (induction sc num dec lx rule: number_loop.induct)
  case (1 startCol num hasDecimal lx)
  show ?case
  proof (cases "isDigit (to_char (peek lx))")
    case False
    with "1.prems" show ?thesis
      by (subst (asm) number_loop_unfold) auto
  next
    case digit: True
    show ?thesis
    proof (cases "fst (consume lx) = CHR ''.''")
      case dot: True
      show ?thesis
      proof (cases hasDecimal)
        case True
        with digit dot "1.prems"(1) show ?thesis
          by (subst (asm) number_loop_unfold) auto
      next
        case False
        with digit dot "1.prems"(1)
        have "fst (number_loop startCol (num @ [fst (consume lx)]) True (snd (consume lx))) = Inr n"
          by (subst (asm) number_loop_unfold) auto
        from "1.IH"(1) [OF digit refl refl dot False this] show ?thesis by simp
      qed
    next
      case nodot: False
      with digit "1.prems"(1)
      have "fst (number_loop startCol (num @ [fst (consume lx)]) hasDecimal (snd (consume lx))) = Inr n"
        by (subst (asm) number_loop_unfold) auto
      from "1.IH"(2) [OF digit refl refl nodot this] show ?thesis by simp
    qed
  qed
qed

lemma number_defined: "isDigit (to_char (peek lx)) \<Longrightarrow> \<exists>tok lx1. number lx = Some (tok, lx1)"
  using number_loop_text [of "col lx" "[]" False lx]
  by (auto simp: number_def Let_def split: prod.splits sum.splits)

text \<open>
  The lexer always returns: the loop ends, and \<^verbatim>\<open>number()\<close> is only called where its
  text is not empty.
\<close>

lemma tokenize_loop_returns: "\<exists>ts lx'. tokenize_loop toks lx = Some (ts, lx')"
proof (induction toks lx rule: tokenize_loop.induct)
  case (1 toks lx)
  show ?case
  proof (cases "peek lx")
    case None
    then show ?thesis
      by (subst tokenize_loop.simps) simp
  next
    case (Some c)
    consider (space) "std_isspace c"
      | (lparen) "\<not> std_isspace c" "c = CHR ''(''"
      | (rparen) "\<not> std_isspace c" "c \<noteq> CHR ''(''" "c = CHR '')''"
      | (digit) "\<not> std_isspace c" "c \<noteq> CHR ''(''" "c \<noteq> CHR '')''" "isDigit c"
      | (oper) "\<not> std_isspace c" "c \<noteq> CHR ''(''" "c \<noteq> CHR '')''" "\<not> isDigit c" "isOperator c"
      | (other) "\<not> std_isspace c" "c \<noteq> CHR ''(''" "c \<noteq> CHR '')''" "\<not> isDigit c" "\<not> isOperator c"
      by blast
    then show ?thesis
    proof cases
      case space
      from "1.IH"(1) [OF Some space] Some space show ?thesis
        by (subst tokenize_loop.simps) simp
    next
      case lparen
      from "1.IH"(2) [OF Some lparen] Some lparen show ?thesis
        by (subst tokenize_loop.simps) simp
    next
      case rparen
      from "1.IH"(3) [OF Some rparen] Some rparen show ?thesis
        by (subst tokenize_loop.simps) simp
    next
      case digit
      have "isDigit (to_char (peek lx))"
        using Some digit by (simp add: to_char_def)
      from number_defined [OF this] obtain tok lx1 where n: "number lx = Some (tok, lx1)"
        by blast
      from "1.IH"(4) [OF Some digit n refl] Some digit n show ?thesis
        by (subst tokenize_loop.simps) simp
    next
      case oper
      obtain tok lx1 where r: "(tok, lx1) = op lx" by (metis surj_pair)
      from "1.IH"(5) [OF Some oper refl r] Some oper r [symmetric]
      show ?thesis
        by (subst tokenize_loop.simps) simp
    next
      case other
      with Some show ?thesis
        by (subst tokenize_loop.simps) (simp add: Let_def)
    qed
  qed
qed

lemma tokenize_returns: "\<exists>ts. tokenize input = Some ts"
  using tokenize_loop_returns [of "[]" "Lexer_init input"]
  by (auto simp: tokenize_def)

lemma stops_at_step:
  assumes run: "tokenize_loop toks lx = tokenize_loop (toks @ new) lx1"
    and run': "tokenize_loop toks (followed_by lx (c # rest)) =
               tokenize_loop (toks @ new) (followed_by lx1 (c # rest))"
    and rd: "reads lx ds lx1"
    and st: "stops_at (toks @ new) lx1 c rest"
  shows "stops_at toks lx c rest"
proof -
  from st obtain ts lx' where
    a: "tokenize_loop (toks @ new) lx1 =
          Some ((toks @ new) @ ts @ [Token TokenType.UNKNOWN ''END'' (cur_line lx') (col lx')], lx')"
    and b: "inputStream lx' = []"
    and r: "reads lx1 (inputStream lx1) lx'"
    and d: "tokenize_loop (toks @ new) (followed_by lx1 (c # rest)) =
          Some ((toks @ new) @ ts @ [Token TokenType.UNKNOWN [c] (cur_line lx') (col lx' + 1)],
                lx'\<lparr>inputStream := rest, col := col lx' + 1\<rparr>)"
    unfolding stops_at_def by blast
  have "inputStream lx = ds @ inputStream lx1"
    using rd by (simp add: reads_def)
  with reads_trans [OF rd r] have "reads lx (inputStream lx) lx'"
    by simp
  with a b d run run' show ?thesis
    unfolding stops_at_def
    by (intro exI [of _ "new @ ts"] exI [of _ lx']) simp
qed

lemma not_recognised_consume:
  assumes "\<not> recognised c" and "inputStream lx = []"
  shows "consume (followed_by lx (c # rest)) = (c, lx\<lparr>inputStream := rest, col := col lx + 1\<rparr>)"
  using assms
  by (auto simp: consume_def peek_def to_char_def followed_by_def recognised_def std_isspace_def
      Let_def)

lemma tokenize_loop_stops:
  assumes c: "\<not> recognised c"
  shows "\<forall>x\<in>set (inputStream lx). recognised x \<Longrightarrow> stops_at toks lx c rest"
proof (induction toks lx rule: tokenize_loop.induct)
  case (1 toks lx)
  show ?case
  proof (cases "inputStream lx")
    case Nil
    then have "tokenize_loop toks lx =
                 Some (toks @ [Token TokenType.UNKNOWN ''END'' (cur_line lx) (col lx)], lx)"
      by (subst tokenize_loop.simps) (simp add: peek_def)
    moreover have "tokenize_loop toks (followed_by lx (c # rest)) =
        Some (toks @ [Token TokenType.UNKNOWN [c] (cur_line lx) (col lx + 1)],
              lx\<lparr>inputStream := rest, col := col lx + 1\<rparr>)"
      using c Nil not_recognised_consume [OF c Nil, of rest]
      by (subst tokenize_loop.simps) (simp add: peek_def recognised_def Let_def)
    ultimately show ?thesis
      using Nil unfolding stops_at_def
      by (intro exI [of _ "[]"] exI [of _ lx]) (simp add: reads_refl)
  next
    case (Cons x xs)
    then have pk: "peek lx = Some x" and ne: "inputStream lx \<noteq> []"
      by (simp_all add: peek_def)
    have pk': "peek (followed_by lx (c # rest)) = Some x"
      using pk peek_followed_by [OF ne] by simp
    have rx: "recognised x"
      using "1.prems" Cons by simp
    have step: "reads lx [x] (snd (consume lx))"
      using reads_consume [OF Cons] .
    have xs: "inputStream (snd (consume lx)) = xs"
      using Cons by (simp add: consume_def Let_def)
    have rest_ok: "\<forall>y\<in>set (inputStream (snd (consume lx))). recognised y"
      using "1.prems" Cons xs by simp
    note cf = consume_followed_by [OF ne, of "c # rest"]
    consider (space) "std_isspace x"
      | (lparen) "\<not> std_isspace x" "x = CHR ''(''"
      | (rparen) "\<not> std_isspace x" "x \<noteq> CHR ''(''" "x = CHR '')''"
      | (digit) "\<not> std_isspace x" "x \<noteq> CHR ''(''" "x \<noteq> CHR '')''" "isDigit x"
      | (oper) "\<not> std_isspace x" "x \<noteq> CHR ''(''" "x \<noteq> CHR '')''" "\<not> isDigit x" "isOperator x"
      using rx unfolding recognised_def by blast
    then show ?thesis
    proof cases
      case space
      have "tokenize_loop toks lx = tokenize_loop (toks @ []) (snd (consume lx))"
        using pk space by (subst tokenize_loop.simps) simp
      moreover have "tokenize_loop toks (followed_by lx (c # rest)) =
                     tokenize_loop (toks @ []) (followed_by (snd (consume lx)) (c # rest))"
        using pk' space cf by (subst tokenize_loop.simps) simp
      moreover have "stops_at (toks @ []) (snd (consume lx)) c rest"
        using "1.IH"(1) [OF pk space rest_ok] by simp
      ultimately show ?thesis
        using stops_at_step step by blast
    next
      case lparen
      let ?new = "[Token TokenType.LEFT_PAREN ''('' (cur_line lx) (col lx)]"
      have "tokenize_loop toks lx = tokenize_loop (toks @ ?new) (snd (consume lx))"
        using pk lparen by (subst tokenize_loop.simps) simp
      moreover have "tokenize_loop toks (followed_by lx (c # rest)) =
                     tokenize_loop (toks @ ?new) (followed_by (snd (consume lx)) (c # rest))"
        using pk' lparen cf by (subst tokenize_loop.simps) simp
      moreover have "stops_at (toks @ ?new) (snd (consume lx)) c rest"
        using "1.IH"(2) [OF pk lparen rest_ok] .
      ultimately show ?thesis
        using stops_at_step step by blast
    next
      case rparen
      let ?new = "[Token TokenType.RIGHT_PAREN '')'' (cur_line lx) (col lx)]"
      have "tokenize_loop toks lx = tokenize_loop (toks @ ?new) (snd (consume lx))"
        using pk rparen by (subst tokenize_loop.simps) simp
      moreover have "tokenize_loop toks (followed_by lx (c # rest)) =
                     tokenize_loop (toks @ ?new) (followed_by (snd (consume lx)) (c # rest))"
        using pk' rparen cf by (subst tokenize_loop.simps) simp
      moreover have "stops_at (toks @ ?new) (snd (consume lx)) c rest"
        using "1.IH"(3) [OF pk rparen rest_ok] .
      ultimately show ?thesis
        using stops_at_step step by blast
    next
      case digit
      have dg: "isDigit (to_char (peek lx))"
        using pk digit by (simp add: to_char_def)
      from number_defined [OF dg] obtain tok lx1 where n: "number lx = Some (tok, lx1)"
        by blast
      have nd: "\<not> isDigit c"
        using c by (simp add: recognised_def)
      have n': "number (followed_by lx (c # rest)) = Some (tok, followed_by lx1 (c # rest))"
        using number_followed_by [OF nd, of lx rest] n by simp
      from number_reads [OF n] obtain ds where rd: "reads lx ds lx1"
        by blast
      then have "set (inputStream lx1) \<subseteq> set (inputStream lx)"
        by (auto simp: reads_def)
      with "1.prems" have ok1: "\<forall>y\<in>set (inputStream lx1). recognised y"
        by blast
      have "tokenize_loop toks lx = tokenize_loop (toks @ [tok]) lx1"
        using pk digit n by (subst tokenize_loop.simps) simp
      moreover have "tokenize_loop toks (followed_by lx (c # rest)) =
                     tokenize_loop (toks @ [tok]) (followed_by lx1 (c # rest))"
        using pk' digit n' by (subst tokenize_loop.simps) simp
      moreover have "stops_at (toks @ [tok]) lx1 c rest"
        using "1.IH"(4) [OF pk digit n refl ok1] .
      ultimately show ?thesis
        using stops_at_step rd by blast
    next
      case oper
      obtain tok lx1 where o: "op lx = (tok, lx1)"
        by (cases "op lx")
      have o': "op (followed_by lx (c # rest)) = (tok, followed_by lx1 (c # rest))"
        using op_followed_by [OF ne, of "c # rest"] o by simp
      have lx1: "lx1 = snd (consume lx)"
        using o by (auto simp: op_def Let_def split: if_splits)
      have "tokenize_loop toks lx = tokenize_loop (toks @ [tok]) lx1"
        using pk oper o by (subst tokenize_loop.simps) simp
      moreover have "tokenize_loop toks (followed_by lx (c # rest)) =
                     tokenize_loop (toks @ [tok]) (followed_by lx1 (c # rest))"
        using pk' oper o' by (subst tokenize_loop.simps) simp
      moreover have "stops_at (toks @ [tok]) lx1 c rest"
        using "1.IH"(5) [OF pk oper refl o [symmetric]] rest_ok lx1 by simp
      ultimately show ?thesis
        using stops_at_step step lx1 by blast
    qed
  qed
qed

lemma pos_after_general:
  "pos_after pre (l, k) =
     (l + int (length (filter (\<lambda>x. x = CHR 0x0A) pre)),
      if CHR 0x0A \<in> set pre
      then 1 + int (length (takeWhile (\<lambda>x. x \<noteq> CHR 0x0A) (rev pre)))
      else k + int (length pre))"
proof (induction pre arbitrary: l k)
  case Nil
  show ?case by simp
next
  case (Cons x xs)
  show ?case
  proof (cases "x = CHR 0x0A")
    case nl: True
    show ?thesis
    proof (cases "CHR 0x0A \<in> set xs")
      case True
      then have "takeWhile (\<lambda>x. x \<noteq> CHR 0x0A) (rev xs @ [x]) =
                 takeWhile (\<lambda>x. x \<noteq> CHR 0x0A) (rev xs)"
        by (intro takeWhile_append1 [of "CHR 0x0A"]) simp_all
      with nl True Cons.IH [of "l + 1" 1] show ?thesis by simp
    next
      case False
      then have "takeWhile (\<lambda>x. x \<noteq> CHR 0x0A) (rev xs @ [x]) =
                 rev xs @ takeWhile (\<lambda>x. x \<noteq> CHR 0x0A) [x]"
        by (intro takeWhile_append2) auto
      with nl False Cons.IH [of "l + 1" 1] show ?thesis by simp
    qed
  next
    case nonl: False
    show ?thesis
    proof (cases "CHR 0x0A \<in> set xs")
      case True
      then have "takeWhile (\<lambda>x. x \<noteq> CHR 0x0A) (rev xs @ [x]) =
                 takeWhile (\<lambda>x. x \<noteq> CHR 0x0A) (rev xs)"
        by (intro takeWhile_append1 [of "CHR 0x0A"]) simp_all
      with nonl True Cons.IH [of l "k + 1"] show ?thesis by simp
    next
      case False
      with nonl Cons.IH [of l "k + 1"] show ?thesis by simp
    qed
  qed
qed

lemma pos_after_start: "pos_after pre (1, 1) = (line_of pre, column_of pre)"
proof (cases "CHR 0x0A \<in> set pre")
  case True
  then show ?thesis
    by (simp add: pos_after_general line_of_def column_of_def)
next
  case False
  then have "\<forall>x\<in>set (rev pre). x \<noteq> CHR 0x0A"
    by auto
  then have "takeWhile (\<lambda>x. x \<noteq> CHR 0x0A) (rev pre) = rev pre"
    by (simp only: takeWhile_eq_all_conv)
  then have "length (takeWhile (\<lambda>x. x \<noteq> CHR 0x0A) (rev pre)) = length pre"
    by (simp only: length_rev)
  with False show ?thesis
    by (simp add: pos_after_general line_of_def column_of_def)
qed

lemma tokenize_prefix_then_unknown:
  assumes pre: "\<forall>x\<in>set pre. recognised x" and c: "\<not> recognised c"
  shows "\<exists>ts.
           tokenize_loop [] (Lexer_init pre) =
             Some (ts @ [Token TokenType.UNKNOWN ''END'' (line_of pre) (column_of pre)],
                   \<lparr>inputStream = [], cur_line = line_of pre, col = column_of pre\<rparr>)
           \<and> tokenize_loop [] (Lexer_init (pre @ c # rest)) =
             Some (ts @ [Token TokenType.UNKNOWN [c] (line_of pre) (column_of pre + 1)],
                   \<lparr>inputStream = rest, cur_line = line_of pre, col = column_of pre + 1\<rparr>)"
proof -
  have "stops_at [] (Lexer_init pre) c rest"
    using tokenize_loop_stops [OF c, of "Lexer_init pre" "[]" rest] pre
    by (simp add: Lexer_init_def)
  then obtain ts lx' where
    a: "tokenize_loop [] (Lexer_init pre) =
          Some (ts @ [Token TokenType.UNKNOWN ''END'' (cur_line lx') (col lx')], lx')"
    and b: "inputStream lx' = []"
    and r: "reads (Lexer_init pre) (inputStream (Lexer_init pre)) lx'"
    and d: "tokenize_loop [] (followed_by (Lexer_init pre) (c # rest)) =
          Some (ts @ [Token TokenType.UNKNOWN [c] (cur_line lx') (col lx' + 1)],
                lx'\<lparr>inputStream := rest, col := col lx' + 1\<rparr>)"
    unfolding stops_at_def by auto
  have pos: "cur_line lx' = line_of pre" "col lx' = column_of pre"
    using r pos_after_start [of pre] by (simp_all add: reads_def Lexer_init_def)
  have lx': "lx' = \<lparr>inputStream = [], cur_line = line_of pre, col = column_of pre\<rparr>"
    using b pos by (cases lx') simp
  have "followed_by (Lexer_init pre) (c # rest) = Lexer_init (pre @ c # rest)"
    by (simp add: followed_by_def Lexer_init_def)
  with a d pos lx' show ?thesis
    by (intro exI [of _ ts]) simp
qed

section \<open>Running the parser on token sequences\<close>

lemmas cascade_defs =
  parse_def parse_handler_def logicalOrExpression_def logicalXorExpression_def
  logicalAndExpression_def equalityExpression_def relationalExpression_def
  additiveExpression_def multiplicativeExpression_def factor_def
  currentToken_def advance_def new_Node_def cleanup_def InfixParser_init_def Let_def

text \<open>Fuel: a run that needs \<open>k\<close> units goes the same way with any more.\<close>

lemma fuel_5: "5 \<le> n \<Longrightarrow> \<exists>m. n = Suc (Suc (Suc (Suc (Suc m))))"
  by (rule exI [of _ "n - 5"]) simp

lemma left_deep_fuel:
  assumes "operator_table t1 = Some (lv, nt1)" and "operator_table t2 = Some (lv, nt2)"
    and "stod a = Some va" and "stod b = Some vb" and "stod c = Some vc"
  shows "parse stod (Suc (Suc (Suc (Suc (Suc n)))))
           (InfixParser_init
              [Token TokenType.NUMBER a la ca, Token t1 x1 l1 c1, Token TokenType.NUMBER b lb cb,
               Token t2 x2 l2 c2, Token TokenType.NUMBER c lc cc, Token TokenType.UNKNOWN e le ce]) =
         Some (Returns [Some (Node 4 nt2 0 []
                          [Node 2 nt1 0 []
                             [Node 0 NodeType.NUMBER va [] [], Node 1 NodeType.NUMBER vb [] []],
                           Node 3 NodeType.NUMBER vc [] []])],
               \<lparr>tokens = [Token TokenType.NUMBER a la ca, Token t1 x1 l1 c1,
                          Token TokenType.NUMBER b lb cb, Token t2 x2 l2 c2,
                          Token TokenType.NUMBER c lc cc, Token TokenType.UNKNOWN e le ce],
                currentTokenIndex = 5, root = None, unmatchedParentheses = 0,
                heap = {0, 1, 2, 3, 4}, nextAddr = 5\<rparr>)"
  using assms
  by (cases t1; cases t2) (auto simp add: cascade_defs)

lemma right_nested_fuel:
  assumes "stod v = Some x"
  shows "parse stod (Suc (Suc (Suc (Suc (Suc n)))))
           (InfixParser_init
              [Token TokenType.IDENTIFIER a l1 c1, Token TokenType.ASSIGN x1 l2 c2,
               Token TokenType.IDENTIFIER b l3 c3, Token TokenType.ASSIGN x2 l4 c4,
               Token TokenType.NUMBER v l5 c5, Token TokenType.UNKNOWN e l6 c6]) =
         Some (Returns [Some (Node 4 NodeType.ASSIGN 0 []
                          [Node 0 NodeType.IDENTIFIER 0 a [],
                           Node 3 NodeType.ASSIGN 0 []
                             [Node 1 NodeType.IDENTIFIER 0 b [], Node 2 NodeType.NUMBER x [] []]])],
               \<lparr>tokens = [Token TokenType.IDENTIFIER a l1 c1, Token TokenType.ASSIGN x1 l2 c2,
                          Token TokenType.IDENTIFIER b l3 c3, Token TokenType.ASSIGN x2 l4 c4,
                          Token TokenType.NUMBER v l5 c5, Token TokenType.UNKNOWN e l6 c6],
                currentTokenIndex = 5, root = None, unmatchedParentheses = 0,
                heap = {0, 1, 2, 3, 4}, nextAddr = 5\<rparr>)"
  using assms by (auto simp add: cascade_defs)

lemma product_first_fuel:
  assumes "stod a = Some va" and "stod b = Some vb" and "stod c = Some vc"
  shows "parse stod (Suc (Suc (Suc (Suc (Suc n)))))
           (InfixParser_init
              [Token TokenType.NUMBER a l1 c1, Token TokenType.ADD x1 l2 c2,
               Token TokenType.NUMBER b l3 c3, Token TokenType.MULTIPLY x2 l4 c4,
               Token TokenType.NUMBER c l5 c5, Token TokenType.UNKNOWN e l6 c6]) =
         Some (Returns [Some (Node 4 NodeType.ADD 0 []
                          [Node 0 NodeType.NUMBER va [] [],
                           Node 3 NodeType.MULTIPLY 0 []
                             [Node 1 NodeType.NUMBER vb [] [], Node 2 NodeType.NUMBER vc [] []]])],
               \<lparr>tokens = [Token TokenType.NUMBER a l1 c1, Token TokenType.ADD x1 l2 c2,
                          Token TokenType.NUMBER b l3 c3, Token TokenType.MULTIPLY x2 l4 c4,
                          Token TokenType.NUMBER c l5 c5, Token TokenType.UNKNOWN e l6 c6],
                currentTokenIndex = 5, root = None, unmatchedParentheses = 0,
                heap = {0, 1, 2, 3, 4}, nextAddr = 5\<rparr>)"
  using assms by (auto simp add: cascade_defs)

lemma leftover_fuel:
  assumes "stod a = Some va"
  shows "parse stod (Suc (Suc (Suc n)))
           (InfixParser_init
              [Token TokenType.NUMBER a l1 c1, Token TokenType.NUMBER b l1 c2,
               Token TokenType.UNKNOWN e l3 c3]) =
         Some (Throws (UnexpectedToken l1 c2 b),
               \<lparr>tokens = [Token TokenType.NUMBER a l1 c1, Token TokenType.NUMBER b l1 c2,
                          Token TokenType.UNKNOWN e l3 c3],
                currentTokenIndex = 1, root = None, unmatchedParentheses = 0,
                heap = {0}, nextAddr = 1\<rparr>)"
  using assms by (auto simp add: cascade_defs)

lemma tokenize_1_2:
  "tokenize ''1 2'' =
     Some [Token TokenType.NUMBER ''1'' 1 1, Token TokenType.NUMBER ''2'' 1 3,
           Token TokenType.UNKNOWN ''END'' 1 4]"
  by code_simp

lemma tokenize_8_3_2:
  "tokenize ''8 - 3 - 2'' =
     Some [Token TokenType.NUMBER ''8'' 1 1, Token TokenType.SUBTRACT ''-'' 1 3,
           Token TokenType.NUMBER ''3'' 1 5, Token TokenType.SUBTRACT ''-'' 1 7,
           Token TokenType.NUMBER ''2'' 1 9, Token TokenType.UNKNOWN ''END'' 1 10]"
  by code_simp

lemma tokenize_1_plus_2_times_3:
  "tokenize ''1 + 2 * 3'' =
     Some [Token TokenType.NUMBER ''1'' 1 1, Token TokenType.ADD ''+'' 1 3,
           Token TokenType.NUMBER ''2'' 1 5, Token TokenType.MULTIPLY ''*'' 1 7,
           Token TokenType.NUMBER ''3'' 1 9, Token TokenType.UNKNOWN ''END'' 1 10]"
  by code_simp

section \<open>The free store through the cascade\<close>

lemma fold_delete_tree:
  assumes "\<And>c h. c \<in> set cs \<Longrightarrow> delete_tree c h = h - addrs c"
  shows "fold delete_tree cs h = h - \<Union> (addrs ` set cs)"
  using assms by (induction cs arbitrary: h) auto

lemma delete_tree_eq: "delete_tree t h = h - addrs t"
proof (induction t arbitrary: h)
  case (Node a ty v nm cs)
  have "fold delete_tree cs h = h - \<Union> (addrs ` set cs)"
    by (rule fold_delete_tree) (rule Node.IH)
  then show ?case by auto
qed

lemma clearTree_Some: "clearTree (Some t) s = (None, s\<lparr>heap := heap s - addrs t\<rparr>)"
  by (simp add: delete_tree_eq)

lemma cleanup_node: "cleanup None (Some node) s = s\<lparr>heap := heap s - addrs node\<rparr>"
  by (simp add: cleanup_def delete_tree_eq)

lemma cleanup_none: "cleanup None None s = s"
  by (simp add: cleanup_def)

lemma advance_simps [simp]:
  "heap (advance s) = heap s" "nextAddr (advance s) = nextAddr s"
  "tokens (advance s) = tokens s"
  by (simp_all add: advance_def)

lemma store_ok_advance [simp]: "store_ok (advance s) = store_ok s"
  by (simp add: store_ok_def)

lemma store_ok_parens [simp]: "store_ok (s\<lparr>unmatchedParentheses := k\<rparr>) = store_ok s"
  by (simp add: store_ok_def)

lemma addrs_push_back [simp]: "addrs (push_back t c) = addrs t \<union> addrs c"
  by (cases t) auto

lemma new_Node_facts:
  "fst (new_Node ty v nm s) = Node (nextAddr s) ty v nm []"
  "heap (snd (new_Node ty v nm s)) = insert (nextAddr s) (heap s)"
  "nextAddr (snd (new_Node ty v nm s)) = Suc (nextAddr s)"
  by (simp_all add: new_Node_def)

text \<open>The branches of \<^verbatim>\<open>factor()\<close>, one equation each.\<close>

lemma factor_past_end: "currentToken s = None \<Longrightarrow> factor stod expr s = Some (Undefined, s)"
  by (simp add: factor_def)

lemma factor_number:
  assumes "currentToken s = Some token" and "type token = TokenType.NUMBER"
  shows "factor stod expr s =
           (case stod (tvalue token) of
              None \<Rightarrow> Some (Throws StodFailure, s)
            | Some v \<Rightarrow>
                Some (Returns (fst (new_Node NodeType.NUMBER v [] s)),
                      advance (snd (new_Node NodeType.NUMBER v [] s))))"
  using assms by (simp add: factor_def case_prod_beta split: option.splits)

lemma factor_identifier:
  assumes "currentToken s = Some token" and "type token = TokenType.IDENTIFIER"
  shows "factor stod expr s =
           Some (Returns (fst (new_Node NodeType.IDENTIFIER 0 (tvalue token) s)),
                 advance (snd (new_Node NodeType.IDENTIFIER 0 (tvalue token) s)))"
  using assms by (simp add: factor_def case_prod_beta)

lemma factor_true:
  assumes "currentToken s = Some token" and "type token = TokenType.BOOLEAN_TRUE"
  shows "factor stod expr s =
           Some (Returns (fst (new_Node NodeType.BOOLEAN_LITERAL 1 [] s)),
                 advance (snd (new_Node NodeType.BOOLEAN_LITERAL 1 [] s)))"
  using assms by (simp add: factor_def case_prod_beta)

lemma factor_false:
  assumes "currentToken s = Some token" and "type token = TokenType.BOOLEAN_FALSE"
  shows "factor stod expr s =
           Some (Returns (fst (new_Node NodeType.BOOLEAN_LITERAL 0 [] s)),
                 advance (snd (new_Node NodeType.BOOLEAN_LITERAL 0 [] s)))"
  using assms by (simp add: factor_def case_prod_beta)

lemma factor_unexpected:
  assumes "currentToken s = Some token"
    and "type token \<noteq> TokenType.NUMBER" and "type token \<noteq> TokenType.IDENTIFIER"
    and "type token \<noteq> TokenType.LEFT_PAREN" and "type token \<noteq> TokenType.BOOLEAN_TRUE"
    and "type token \<noteq> TokenType.BOOLEAN_FALSE"
  shows "factor stod expr s =
           Some (Throws (UnexpectedToken (line token) (column token) (tvalue token)), s)"
  using assms by (simp add: factor_def)

lemma factor_paren:
  assumes "currentToken s = Some token" and "type token = TokenType.LEFT_PAREN"
  shows "factor stod expr s =
           (case expr (advance (s\<lparr>unmatchedParentheses := unmatchedParentheses s + 1\<rparr>)) of
              None \<Rightarrow> None
            | Some (Undefined, s1) \<Rightarrow> Some (Undefined, s1)
            | Some (Throws e, s1) \<Rightarrow> Some (Throws e, s1)
            | Some (Returns node, s1) \<Rightarrow>
                (case currentToken s1 of
                   None \<Rightarrow> Some (Undefined, s1)
                 | Some t \<Rightarrow>
                     if type t \<noteq> TokenType.RIGHT_PAREN
                     then Some (Throws (UnexpectedToken (line t) (column t) (tvalue t)),
                                s1\<lparr>heap := heap s1 - addrs node\<rparr>)
                     else Some (Returns node,
                                advance (s1\<lparr>unmatchedParentheses := unmatchedParentheses s1 - 1\<rparr>))))"
  using assms
  by (simp add: factor_def delete_tree_eq split: option.splits outcome.splits prod.splits)

lemma tidy_Returns:
  assumes "tidy p" and "store_ok s" and "p s = Some (Returns t, s')"
  shows "nextAddr s \<le> nextAddr s'" and "addrs t \<subseteq> {nextAddr s..<nextAddr s'}"
    and "heap s' = heap s \<union> addrs t"
  using assms unfolding tidy_def by force+

lemma tidy_Throws:
  assumes "tidy p" and "store_ok s" and "p s = Some (Throws e, s')"
  shows "nextAddr s \<le> nextAddr s'" and "heap s' = heap s"
  using assms unfolding tidy_def by force+

lemma tidy_Undefined:
  assumes "tidy p" and "store_ok s" and "p s = Some (Undefined, s')"
  shows "nextAddr s \<le> nextAddr s'"
  using assms unfolding tidy_def by force

lemma tidyI:
  assumes "\<And>s t s'. store_ok s \<Longrightarrow> p s = Some (Returns t, s') \<Longrightarrow>
             nextAddr s \<le> nextAddr s' \<and> addrs t \<subseteq> {nextAddr s..<nextAddr s'}
             \<and> heap s' = heap s \<union> addrs t"
    and "\<And>s e s'. store_ok s \<Longrightarrow> p s = Some (Throws e, s') \<Longrightarrow>
             nextAddr s \<le> nextAddr s' \<and> heap s' = heap s"
    and "\<And>s s'. store_ok s \<Longrightarrow> p s = Some (Undefined, s') \<Longrightarrow> nextAddr s \<le> nextAddr s'"
  shows "tidy p"
  unfolding tidy_def
proof (intro allI impI)
  fix s r s'
  assume ok: "store_ok s" and run: "p s = Some (r, s')"
  show "nextAddr s \<le> nextAddr s'
        \<and> (case r of
             Returns t \<Rightarrow> addrs t \<subseteq> {nextAddr s..<nextAddr s'} \<and> heap s' = heap s \<union> addrs t
           | Throws e \<Rightarrow> heap s' = heap s
           | Undefined \<Rightarrow> True)"
  proof (cases r)
    case (Returns t)
    with assms(1) [OF ok, of t s'] run show ?thesis by simp
  next
    case (Throws e)
    with assms(2) [OF ok, of e s'] run show ?thesis by simp
  next
    case Undefined
    with assms(3) [OF ok, of s'] run show ?thesis by simp
  qed
qed

lemma tidy_None: "tidy (\<lambda>s. None)"
  by (simp add: tidy_def)

lemma tidy_loop_None: "tidy_loop (\<lambda>node s. None)"
  by (simp add: tidy_loop_def)

lemma tidy_loop_Returns:
  assumes "tidy_loop lp" and "store_ok s" and "addrs node \<subseteq> heap s"
    and "lp node s = Some (Returns t, s')"
  shows "nextAddr s \<le> nextAddr s'" and "addrs node \<subseteq> addrs t"
    and "addrs t \<subseteq> addrs node \<union> {nextAddr s..<nextAddr s'}" and "heap s' = heap s \<union> addrs t"
  using assms unfolding tidy_loop_def by force+

lemma tidy_loop_Throws:
  assumes "tidy_loop lp" and "store_ok s" and "addrs node \<subseteq> heap s"
    and "lp node s = Some (Throws e, s')"
  shows "nextAddr s \<le> nextAddr s'" and "heap s' = heap s - addrs node"
  using assms unfolding tidy_loop_def by force+

lemma tidy_loop_Undefined:
  assumes "tidy_loop lp" and "store_ok s" and "addrs node \<subseteq> heap s"
    and "lp node s = Some (Undefined, s')"
  shows "nextAddr s \<le> nextAddr s'"
  using assms unfolding tidy_loop_def by force

lemma tidy_loopI:
  assumes "\<And>node s t s'. store_ok s \<Longrightarrow> addrs node \<subseteq> heap s \<Longrightarrow>
             lp node s = Some (Returns t, s') \<Longrightarrow>
             nextAddr s \<le> nextAddr s' \<and> addrs node \<subseteq> addrs t
             \<and> addrs t \<subseteq> addrs node \<union> {nextAddr s..<nextAddr s'} \<and> heap s' = heap s \<union> addrs t"
    and "\<And>node s e s'. store_ok s \<Longrightarrow> addrs node \<subseteq> heap s \<Longrightarrow>
             lp node s = Some (Throws e, s') \<Longrightarrow>
             nextAddr s \<le> nextAddr s' \<and> heap s' = heap s - addrs node"
    and "\<And>node s s'. store_ok s \<Longrightarrow> addrs node \<subseteq> heap s \<Longrightarrow>
             lp node s = Some (Undefined, s') \<Longrightarrow> nextAddr s \<le> nextAddr s'"
  shows "tidy_loop lp"
  unfolding tidy_loop_def
proof (intro allI impI)
  fix node s r s'
  assume ok: "store_ok s" and own: "addrs node \<subseteq> heap s" and run: "lp node s = Some (r, s')"
  show "nextAddr s \<le> nextAddr s'
        \<and> (case r of
             Returns t \<Rightarrow>
               addrs node \<subseteq> addrs t \<and> addrs t \<subseteq> addrs node \<union> {nextAddr s..<nextAddr s'}
               \<and> heap s' = heap s \<union> addrs t
           | Throws e \<Rightarrow> heap s' = heap s - addrs node
           | Undefined \<Rightarrow> True)"
  proof (cases r)
    case (Returns t)
    with assms(1) [OF ok own, of t s'] run show ?thesis by simp
  next
    case (Throws e)
    with assms(2) [OF ok own, of e s'] run show ?thesis by simp
  next
    case Undefined
    with assms(3) [OF ok own, of s'] run show ?thesis by simp
  qed
qed

text \<open>A tree that a tidy call has returned is live, and apart from the old objects.\<close>

lemma fresh_apart:
  assumes "store_ok s" and "A \<subseteq> {nextAddr s..<k}"
  shows "heap s \<inter> A = {}"
  using assms unfolding store_ok_def by fastforce

lemma store_ok_grown:
  assumes "store_ok s" and "nextAddr s \<le> nextAddr s'" and "A \<subseteq> {nextAddr s..<nextAddr s'}"
    and "heap s' = heap s \<union> A"
  shows "store_ok s'"
  using assms unfolding store_ok_def by fastforce

lemma leaf_tidy:
  assumes "store_ok s"
  shows "nextAddr s \<le> nextAddr (advance (snd (new_Node ty v nm s)))
         \<and> addrs (fst (new_Node ty v nm s))
             \<subseteq> {nextAddr s..<nextAddr (advance (snd (new_Node ty v nm s)))}
         \<and> heap (advance (snd (new_Node ty v nm s))) = heap s \<union> addrs (fst (new_Node ty v nm s))"
  by (auto simp: new_Node_facts)

lemma factor_tidy:
  assumes "tidy expr"
  shows "tidy (factor stod expr)"
proof (rule tidyI)
  fix s t s'
  assume ok: "store_ok s" and run: "factor stod expr s = Some (Returns t, s')"
  let ?s0 = "advance (s\<lparr>unmatchedParentheses := unmatchedParentheses s + 1\<rparr>)"
  show "nextAddr s \<le> nextAddr s' \<and> addrs t \<subseteq> {nextAddr s..<nextAddr s'}
        \<and> heap s' = heap s \<union> addrs t"
  proof (cases "currentToken s")
    case None
    with run show ?thesis by (simp add: factor_past_end)
  next
    case (Some token)
    consider (num) "type token = TokenType.NUMBER"
      | (ident) "type token = TokenType.IDENTIFIER"
      | (paren) "type token = TokenType.LEFT_PAREN"
      | (true) "type token = TokenType.BOOLEAN_TRUE"
      | (false) "type token = TokenType.BOOLEAN_FALSE"
      | (other) "type token \<noteq> TokenType.NUMBER" "type token \<noteq> TokenType.IDENTIFIER"
          "type token \<noteq> TokenType.LEFT_PAREN" "type token \<noteq> TokenType.BOOLEAN_TRUE"
          "type token \<noteq> TokenType.BOOLEAN_FALSE"
      by blast
    then show ?thesis
    proof cases
      case num
      from run obtain v where "t = fst (new_Node NodeType.NUMBER v [] s)"
        and "s' = advance (snd (new_Node NodeType.NUMBER v [] s))"
        unfolding factor_number [OF Some num] by (auto split: option.splits)
      with leaf_tidy [OF ok] show ?thesis by simp
    next
      case ident
      from run have "t = fst (new_Node NodeType.IDENTIFIER 0 (tvalue token) s)"
        and "s' = advance (snd (new_Node NodeType.IDENTIFIER 0 (tvalue token) s))"
        unfolding factor_identifier [OF Some ident] by simp_all
      with leaf_tidy [OF ok] show ?thesis by simp
    next
      case true
      from run have "t = fst (new_Node NodeType.BOOLEAN_LITERAL 1 [] s)"
        and "s' = advance (snd (new_Node NodeType.BOOLEAN_LITERAL 1 [] s))"
        unfolding factor_true [OF Some true] by simp_all
      with leaf_tidy [OF ok] show ?thesis by simp
    next
      case false
      from run have "t = fst (new_Node NodeType.BOOLEAN_LITERAL 0 [] s)"
        and "s' = advance (snd (new_Node NodeType.BOOLEAN_LITERAL 0 [] s))"
        unfolding factor_false [OF Some false] by simp_all
      with leaf_tidy [OF ok] show ?thesis by simp
    next
      case other
      with run Some show ?thesis by (simp add: factor_unexpected)
    next
      case paren
      from run obtain s1 where inner: "expr ?s0 = Some (Returns t, s1)"
        and s': "s' = advance (s1\<lparr>unmatchedParentheses := unmatchedParentheses s1 - 1\<rparr>)"
        unfolding factor_paren [OF Some paren]
        by (auto split: option.splits outcome.splits if_splits)
      have ok0: "store_ok ?s0"
        using ok by simp
      from tidy_Returns [OF assms ok0 inner] s' show ?thesis
        by simp
    qed
  qed
next
  fix s e s'
  assume ok: "store_ok s" and run: "factor stod expr s = Some (Throws e, s')"
  let ?s0 = "advance (s\<lparr>unmatchedParentheses := unmatchedParentheses s + 1\<rparr>)"
  have ok0: "store_ok ?s0"
    using ok by simp
  show "nextAddr s \<le> nextAddr s' \<and> heap s' = heap s"
  proof (cases "currentToken s")
    case None
    with run show ?thesis by (simp add: factor_past_end)
  next
    case (Some token)
    consider (num) "type token = TokenType.NUMBER"
      | (ident) "type token = TokenType.IDENTIFIER"
      | (paren) "type token = TokenType.LEFT_PAREN"
      | (true) "type token = TokenType.BOOLEAN_TRUE"
      | (false) "type token = TokenType.BOOLEAN_FALSE"
      | (other) "type token \<noteq> TokenType.NUMBER" "type token \<noteq> TokenType.IDENTIFIER"
          "type token \<noteq> TokenType.LEFT_PAREN" "type token \<noteq> TokenType.BOOLEAN_TRUE"
          "type token \<noteq> TokenType.BOOLEAN_FALSE"
      by blast
    then show ?thesis
    proof cases
      case num
      from run have "s' = s"
        unfolding factor_number [OF Some num] by (auto split: option.splits)
      then show ?thesis by simp
    next
      case ident
      with run Some show ?thesis by (simp add: factor_identifier)
    next
      case true
      with run Some show ?thesis by (simp add: factor_true)
    next
      case false
      with run Some show ?thesis by (simp add: factor_false)
    next
      case other
      with run Some show ?thesis by (simp add: factor_unexpected)
    next
      case paren
      from run consider (inner) "expr ?s0 = Some (Throws e, s')"
        | (close) node s1 where "expr ?s0 = Some (Returns node, s1)"
            "s' = s1\<lparr>heap := heap s1 - addrs node\<rparr>"
        unfolding factor_paren [OF Some paren]
        by (auto split: option.splits outcome.splits if_splits)
      then show ?thesis
      proof cases
        case inner
        from tidy_Throws [OF assms ok0 inner] show ?thesis by simp
      next
        case close
        note post = tidy_Returns [OF assms ok0 close(1)]
        have "heap ?s0 \<inter> addrs node = {}"
          using fresh_apart [OF ok0 post(2)] .
        with post close(2) show ?thesis by auto
      qed
    qed
  qed
next
  fix s s'
  assume ok: "store_ok s" and run: "factor stod expr s = Some (Undefined, s')"
  let ?s0 = "advance (s\<lparr>unmatchedParentheses := unmatchedParentheses s + 1\<rparr>)"
  have ok0: "store_ok ?s0"
    using ok by simp
  show "nextAddr s \<le> nextAddr s'"
  proof (cases "currentToken s")
    case None
    with run show ?thesis by (simp add: factor_past_end)
  next
    case (Some token)
    consider (num) "type token = TokenType.NUMBER"
      | (ident) "type token = TokenType.IDENTIFIER"
      | (paren) "type token = TokenType.LEFT_PAREN"
      | (true) "type token = TokenType.BOOLEAN_TRUE"
      | (false) "type token = TokenType.BOOLEAN_FALSE"
      | (other) "type token \<noteq> TokenType.NUMBER" "type token \<noteq> TokenType.IDENTIFIER"
          "type token \<noteq> TokenType.LEFT_PAREN" "type token \<noteq> TokenType.BOOLEAN_TRUE"
          "type token \<noteq> TokenType.BOOLEAN_FALSE"
      by blast
    then show ?thesis
    proof cases
      case num
      with run Some show ?thesis by (simp add: factor_number split: option.splits)
    next
      case ident
      with run Some show ?thesis by (simp add: factor_identifier)
    next
      case true
      with run Some show ?thesis by (simp add: factor_true)
    next
      case false
      with run Some show ?thesis by (simp add: factor_false)
    next
      case other
      with run Some show ?thesis by (simp add: factor_unexpected)
    next
      case paren
      from run consider (inner) "expr ?s0 = Some (Undefined, s')"
        | (past) node where "expr ?s0 = Some (Returns node, s')"
        unfolding factor_paren [OF Some paren]
        by (auto split: option.splits outcome.splits if_splits)
      then show ?thesis
      proof cases
        case inner
        from tidy_Undefined [OF assms ok0 inner] show ?thesis by simp
      next
        case past
        from tidy_Returns(1) [OF assms ok0 past] show ?thesis by simp
      qed
    qed
  qed
qed

lemma loop_round_past:
  "currentToken s = None \<Longrightarrow> loop_round cond kind opnd lp node s = Some (Undefined, s)"
  by (simp add: loop_round_def)

lemma loop_round_stop:
  "currentToken s = Some opTok \<Longrightarrow> \<not> cond opTok \<Longrightarrow>
   loop_round cond kind opnd lp node s = Some (Returns node, s)"
  by (simp add: loop_round_def)

lemma loop_round_operand:
  "currentToken s = Some opTok \<Longrightarrow> cond opTok \<Longrightarrow>
   loop_round cond kind opnd lp node s =
     (case opnd (advance s) of
        None \<Rightarrow> None
      | Some (Undefined, s1) \<Rightarrow> Some (Undefined, s1)
      | Some (Throws e, s1) \<Rightarrow> Some (Throws e, s1\<lparr>heap := heap s1 - addrs node\<rparr>)
      | Some (Returns right, s1) \<Rightarrow>
          lp (push_back (push_back (fst (new_Node (kind opTok) 0 [] s1)) node) right)
             (snd (new_Node (kind opTok) 0 [] s1)))"
  by (simp add: loop_round_def cleanup_node case_prod_beta
      split: option.splits outcome.splits prod.splits)

lemma loop_round_cases:
  assumes run: "loop_round cond kind opnd lp node s = Some (r, s')"
  obtains (past) "r = Undefined" "s' = s"
    | (stop) "r = Returns node" "s' = s"
    | (undefined) "opnd (advance s) = Some (Undefined, s')" "r = Undefined"
    | (throws) e s1 where "opnd (advance s) = Some (Throws e, s1)" "r = Throws e"
        "s' = s1\<lparr>heap := heap s1 - addrs node\<rparr>"
    | (wraps) right s1 k where "opnd (advance s) = Some (Returns right, s1)"
        "lp (push_back (push_back (fst (new_Node k 0 [] s1)) node) right) (snd (new_Node k 0 [] s1))
           = Some (r, s')"
proof (cases "currentToken s")
  case None
  with run past show ?thesis by (simp add: loop_round_past)
next
  case (Some opTok)
  show ?thesis
  proof (cases "cond opTok")
    case False
    with run Some stop show ?thesis by (simp add: loop_round_stop)
  next
    case True
    have eq: "(case opnd (advance s) of
                 None \<Rightarrow> None
               | Some (Undefined, s1) \<Rightarrow> Some (Undefined, s1)
               | Some (Throws e, s1) \<Rightarrow> Some (Throws e, s1\<lparr>heap := heap s1 - addrs node\<rparr>)
               | Some (Returns right, s1) \<Rightarrow>
                   lp (push_back (push_back (fst (new_Node (kind opTok) 0 [] s1)) node) right)
                      (snd (new_Node (kind opTok) 0 [] s1))) = Some (r, s')"
      using run loop_round_operand [of s opTok cond kind opnd lp node] Some True by simp
    show ?thesis
    proof (cases "opnd (advance s)")
      case None
      with eq show ?thesis by simp
    next
      case res: (Some res)
      obtain r1 s1 where r1: "res = (r1, s1)" by (cases res)
      show ?thesis
      proof (cases r1)
        case (Returns right)
        have call: "opnd (advance s) = Some (Returns right, s1)"
          using res r1 Returns by simp
        have "lp (push_back (push_back (fst (new_Node (kind opTok) 0 [] s1)) node) right)
                (snd (new_Node (kind opTok) 0 [] s1)) = Some (r, s')"
          using eq unfolding call by simp
        with call show ?thesis by (rule wraps)
      next
        case (Throws e)
        have call: "opnd (advance s) = Some (Throws e, s1)"
          using res r1 Throws by simp
        have "r = Throws e" and "s' = s1\<lparr>heap := heap s1 - addrs node\<rparr>"
          using eq unfolding call by simp_all
        with call show ?thesis by (rule throws)
      next
        case Undefined
        have call: "opnd (advance s) = Some (Undefined, s1)"
          using res r1 Undefined by simp
        have "r = Undefined" and "s1 = s'"
          using eq unfolding call by simp_all
        with call undefined show ?thesis by simp
      qed
    qed
  qed
qed

lemma wrapped_node:
  assumes ok: "store_ok s" and own: "addrs node \<subseteq> heap s"
    and n1: "nextAddr s \<le> nextAddr s1" and fresh: "addrs right \<subseteq> {nextAddr s..<nextAddr s1}"
    and h1: "heap s1 = heap s \<union> addrs right"
  shows "store_ok (snd (new_Node k 0 [] s1))"
    and "addrs (push_back (push_back (fst (new_Node k 0 [] s1)) node) right)
           = insert (nextAddr s1) (addrs node \<union> addrs right)"
    and "addrs (push_back (push_back (fst (new_Node k 0 [] s1)) node) right)
           \<subseteq> heap (snd (new_Node k 0 [] s1))"
    and "heap (snd (new_Node k 0 [] s1)) = insert (nextAddr s1) (heap s \<union> addrs right)"
    and "nextAddr (snd (new_Node k 0 [] s1)) = Suc (nextAddr s1)"
proof -
  show "store_ok (snd (new_Node k 0 [] s1))"
    using ok n1 fresh h1 unfolding store_ok_def by (fastforce simp: new_Node_facts)
  show "addrs (push_back (push_back (fst (new_Node k 0 [] s1)) node) right)
           = insert (nextAddr s1) (addrs node \<union> addrs right)"
    by (simp add: new_Node_facts)
  show "addrs (push_back (push_back (fst (new_Node k 0 [] s1)) node) right)
           \<subseteq> heap (snd (new_Node k 0 [] s1))"
    using own h1 by (auto simp: new_Node_facts)
  show "heap (snd (new_Node k 0 [] s1)) = insert (nextAddr s1) (heap s \<union> addrs right)"
    using h1 by (simp add: new_Node_facts)
  show "nextAddr (snd (new_Node k 0 [] s1)) = Suc (nextAddr s1)"
    by (simp add: new_Node_facts)
qed

lemma wrapped_apart:
  assumes ok: "store_ok s"
    and n1: "nextAddr s \<le> nextAddr s1" and fresh: "addrs right \<subseteq> {nextAddr s..<nextAddr s1}"
  shows "nextAddr s1 \<notin> heap s" and "heap s \<inter> addrs right = {}"
proof -
  show "nextAddr s1 \<notin> heap s"
    using ok n1 unfolding store_ok_def by fastforce
  show "heap s \<inter> addrs right = {}"
    using fresh_apart [OF ok fresh] .
qed

lemma loop_round_tidy:
  assumes opnd: "tidy opnd" and rec: "tidy_loop lp"
  shows "tidy_loop (loop_round cond kind opnd lp)"
proof (rule tidy_loopI)
  fix node s t s'
  assume ok: "store_ok s" and own: "addrs node \<subseteq> heap s"
    and run: "loop_round cond kind opnd lp node s = Some (Returns t, s')"
  have ok0: "store_ok (advance s)"
    using ok by simp
  from run show "nextAddr s \<le> nextAddr s' \<and> addrs node \<subseteq> addrs t
        \<and> addrs t \<subseteq> addrs node \<union> {nextAddr s..<nextAddr s'} \<and> heap s' = heap s \<union> addrs t"
  proof (cases rule: loop_round_cases)
    case stop
    with own show ?thesis by auto
  next
    case (wraps right s1 k)
    note post = tidy_Returns [OF opnd ok0 wraps(1), simplified]
    note w = wrapped_node [OF ok own post, of k]
    note fin = tidy_loop_Returns [OF rec w(1) w(3) wraps(2)]
    have inside: "insert (nextAddr s1) (addrs node \<union> addrs right) \<subseteq> addrs t"
      using fin(2) unfolding w(2) .
    have outside: "addrs t \<subseteq> insert (nextAddr s1) (addrs node \<union> addrs right)
                     \<union> {Suc (nextAddr s1)..<nextAddr s'}"
      using fin(3) unfolding w(2) w(5) .
    have live: "heap s' = insert (nextAddr s1) (heap s \<union> addrs right) \<union> addrs t"
      using fin(4) unfolding w(4) .
    have later: "Suc (nextAddr s1) \<le> nextAddr s'"
      using fin(1) unfolding w(5) .
    show ?thesis
    proof (intro conjI)
      show "nextAddr s \<le> nextAddr s'"
        using post(1) later by simp
      show "addrs node \<subseteq> addrs t"
        using inside by blast
      show "addrs t \<subseteq> addrs node \<union> {nextAddr s..<nextAddr s'}"
      proof
        fix a assume "a \<in> addrs t"
        with outside consider "a \<in> addrs node" | "a = nextAddr s1" | "a \<in> addrs right"
          | "Suc (nextAddr s1) \<le> a \<and> a < nextAddr s'"
          by auto
        then show "a \<in> addrs node \<union> {nextAddr s..<nextAddr s'}"
          using post(1,2) later by cases auto
      qed
      show "heap s' = heap s \<union> addrs t"
        using live inside by blast
    qed
  qed simp_all
next
  fix node s e s'
  assume ok: "store_ok s" and own: "addrs node \<subseteq> heap s"
    and run: "loop_round cond kind opnd lp node s = Some (Throws e, s')"
  have ok0: "store_ok (advance s)"
    using ok by simp
  from run show "nextAddr s \<le> nextAddr s' \<and> heap s' = heap s - addrs node"
  proof (cases rule: loop_round_cases)
    case (throws e1 s1)
    from tidy_Throws [OF opnd ok0 throws(1), simplified] throws(3) show ?thesis
      by simp
  next
    case (wraps right s1 k)
    note post = tidy_Returns [OF opnd ok0 wraps(1), simplified]
    note w = wrapped_node [OF ok own post, of k]
    note apart = wrapped_apart [OF ok post(1,2)]
    note fin = tidy_loop_Throws [OF rec w(1) w(3) wraps(2)]
    have live: "heap s' = insert (nextAddr s1) (heap s \<union> addrs right)
                  - insert (nextAddr s1) (addrs node \<union> addrs right)"
      using fin(2) unfolding w(2) w(4) .
    have later: "Suc (nextAddr s1) \<le> nextAddr s'"
      using fin(1) unfolding w(5) .
    show ?thesis
    proof (intro conjI)
      show "nextAddr s \<le> nextAddr s'"
        using post(1) later by simp
      show "heap s' = heap s - addrs node"
        using live apart by blast
    qed
  qed simp_all
next
  fix node s s'
  assume ok: "store_ok s" and own: "addrs node \<subseteq> heap s"
    and run: "loop_round cond kind opnd lp node s = Some (Undefined, s')"
  have ok0: "store_ok (advance s)"
    using ok by simp
  from run show "nextAddr s \<le> nextAddr s'"
  proof (cases rule: loop_round_cases)
    case undefined
    from tidy_Undefined [OF opnd ok0 undefined(1)] show ?thesis by simp
  next
    case (wraps right s1 k)
    note post = tidy_Returns [OF opnd ok0 wraps(1), simplified]
    note w = wrapped_node [OF ok own post, of k]
    have "Suc (nextAddr s1) \<le> nextAddr s'"
      using tidy_loop_Undefined [OF rec w(1) w(3) wraps(2)] unfolding w(5) .
    with post(1) show ?thesis
      by simp
  qed simp_all
qed

lemma level_of_cases:
  assumes run: "level_of opnd lp s = Some (r, s')"
  obtains (undefined) "opnd s = Some (Undefined, s')" "r = Undefined"
    | (throws) e where "opnd s = Some (Throws e, s')" "r = Throws e"
    | (loop) node s1 where "opnd s = Some (Returns node, s1)" "lp node s1 = Some (r, s')"
proof (cases "opnd s")
  case None
  with run show ?thesis by (simp add: level_of_def)
next
  case res: (Some res)
  obtain r1 s1 where r1: "res = (r1, s1)" by (cases res)
  show ?thesis
  proof (cases r1)
    case (Returns node)
    have call: "opnd s = Some (Returns node, s1)"
      using res r1 Returns by simp
    have "lp node s1 = Some (r, s')"
      using run unfolding level_of_def call by simp
    with call show ?thesis by (rule loop)
  next
    case (Throws e)
    have call: "opnd s = Some (Throws e, s1)"
      using res r1 Throws by simp
    have "r = Throws e" and "s1 = s'"
      using run unfolding level_of_def call by simp_all
    with call throws show ?thesis by simp
  next
    case Undefined
    have call: "opnd s = Some (Undefined, s1)"
      using res r1 Undefined by simp
    have "r = Undefined" and "s1 = s'"
      using run unfolding level_of_def call by simp_all
    with call undefined show ?thesis by simp
  qed
qed

lemma level_of_tidy:
  assumes opnd: "tidy opnd" and lp: "tidy_loop lp"
  shows "tidy (level_of opnd lp)"
proof (rule tidyI)
  fix s t s'
  assume ok: "store_ok s" and run: "level_of opnd lp s = Some (Returns t, s')"
  from run show "nextAddr s \<le> nextAddr s' \<and> addrs t \<subseteq> {nextAddr s..<nextAddr s'}
        \<and> heap s' = heap s \<union> addrs t"
  proof (cases rule: level_of_cases)
    case (loop node s1)
    note post = tidy_Returns [OF opnd ok loop(1)]
    have ok1: "store_ok s1"
      using store_ok_grown [OF ok post] .
    have own: "addrs node \<subseteq> heap s1"
      using post(3) by simp
    note fin = tidy_loop_Returns [OF lp ok1 own loop(2)]
    show ?thesis
    proof (intro conjI)
      show "nextAddr s \<le> nextAddr s'"
        using post(1) fin(1) by simp
      show "addrs t \<subseteq> {nextAddr s..<nextAddr s'}"
      proof
        fix a assume "a \<in> addrs t"
        with fin(3) consider "a \<in> addrs node" | "nextAddr s1 \<le> a \<and> a < nextAddr s'"
          by auto
        then show "a \<in> {nextAddr s..<nextAddr s'}"
          using post(1,2) fin(1) by cases auto
      qed
      show "heap s' = heap s \<union> addrs t"
        using fin(4) fin(2) post(3) by auto
    qed
  qed simp_all
next
  fix s e s'
  assume ok: "store_ok s" and run: "level_of opnd lp s = Some (Throws e, s')"
  from run show "nextAddr s \<le> nextAddr s' \<and> heap s' = heap s"
  proof (cases rule: level_of_cases)
    case (throws e1)
    from tidy_Throws [OF opnd ok throws(1)] show ?thesis by simp
  next
    case (loop node s1)
    note post = tidy_Returns [OF opnd ok loop(1)]
    have ok1: "store_ok s1"
      using store_ok_grown [OF ok post] .
    have own: "addrs node \<subseteq> heap s1"
      using post(3) by simp
    note fin = tidy_loop_Throws [OF lp ok1 own loop(2)]
    have "heap s \<inter> addrs node = {}"
      using fresh_apart [OF ok post(2)] .
    with post fin show ?thesis by auto
  qed simp_all
next
  fix s s'
  assume ok: "store_ok s" and run: "level_of opnd lp s = Some (Undefined, s')"
  from run show "nextAddr s \<le> nextAddr s'"
  proof (cases rule: level_of_cases)
    case undefined
    from tidy_Undefined [OF opnd ok undefined(1)] show ?thesis .
  next
    case (loop node s1)
    note post = tidy_Returns [OF opnd ok loop(1)]
    have ok1: "store_ok s1"
      using store_ok_grown [OF ok post] .
    have own: "addrs node \<subseteq> heap s1"
      using post(3) by simp
    from tidy_loop_Undefined [OF lp ok1 own loop(2)] post(1) show ?thesis by simp
  qed simp_all
qed

text \<open>
  The seven levels are instances of the round and the level above; each loop keeps
  the free store tidy when \<^verbatim>\<open>expression()\<close>, which \<^verbatim>\<open>factor()\<close> calls, does.
\<close>

lemma multiplicativeExpression_loop_round:
  "multiplicativeExpression_loop stod expr (Suc n) =
     loop_round
       (\<lambda>opTok. type opTok = TokenType.MULTIPLY \<or> type opTok = TokenType.DIVIDE \<or> type opTok = TokenType.MODULO)
       (\<lambda>opTok. if type opTok = TokenType.MULTIPLY then NodeType.MULTIPLY
             else if type opTok = TokenType.DIVIDE then NodeType.DIVIDE
             else NodeType.MODULO)
       (factor stod expr) (multiplicativeExpression_loop stod expr n)"
  by (intro ext) (simp add: loop_round_def)

lemma multiplicativeExpression_level:
  "multiplicativeExpression stod expr n =
     level_of (factor stod expr) (multiplicativeExpression_loop stod expr n)"
  by (intro ext) (simp add: multiplicativeExpression_def level_of_def)

lemma multiplicativeExpression_loop_tidy:
  assumes "tidy expr"
  shows "tidy_loop (multiplicativeExpression_loop stod expr n)"
proof (induction n)
  case 0
  have "multiplicativeExpression_loop stod expr 0 = (\<lambda>node s. None)"
    by (intro ext) simp
  then show ?case
    by (simp only: tidy_loop_None)
next
  case (Suc n)
  show ?case
    unfolding multiplicativeExpression_loop_round
    by (rule loop_round_tidy [OF factor_tidy [OF assms] Suc.IH])
qed

lemma multiplicativeExpression_tidy:
  assumes "tidy expr"
  shows "tidy (multiplicativeExpression stod expr n)"
  unfolding multiplicativeExpression_level
  by (rule level_of_tidy [OF factor_tidy [OF assms] multiplicativeExpression_loop_tidy [OF assms]])

lemma additiveExpression_loop_round:
  "additiveExpression_loop stod expr (Suc n) =
     loop_round
       (\<lambda>opTok. type opTok = TokenType.ADD \<or> type opTok = TokenType.SUBTRACT)
       (\<lambda>opTok. if type opTok = TokenType.ADD then NodeType.ADD else NodeType.SUBTRACT)
       (multiplicativeExpression stod expr n) (additiveExpression_loop stod expr n)"
  by (intro ext) (simp add: loop_round_def)

lemma additiveExpression_level:
  "additiveExpression stod expr n =
     level_of (multiplicativeExpression stod expr n) (additiveExpression_loop stod expr n)"
  by (intro ext) (simp add: additiveExpression_def level_of_def)

lemma additiveExpression_loop_tidy:
  assumes "tidy expr"
  shows "tidy_loop (additiveExpression_loop stod expr n)"
proof (induction n)
  case 0
  have "additiveExpression_loop stod expr 0 = (\<lambda>node s. None)"
    by (intro ext) simp
  then show ?case
    by (simp only: tidy_loop_None)
next
  case (Suc n)
  show ?case
    unfolding additiveExpression_loop_round
    by (rule loop_round_tidy [OF multiplicativeExpression_tidy [OF assms] Suc.IH])
qed

lemma additiveExpression_tidy:
  assumes "tidy expr"
  shows "tidy (additiveExpression stod expr n)"
  unfolding additiveExpression_level
  by (rule level_of_tidy [OF multiplicativeExpression_tidy [OF assms] additiveExpression_loop_tidy [OF assms]])

lemma relationalExpression_loop_round:
  "relationalExpression_loop stod expr (Suc n) =
     loop_round
       (\<lambda>opTok. type opTok = TokenType.LESS \<or> type opTok = TokenType.LESS_EQUAL
             \<or> type opTok = TokenType.GREATER \<or> type opTok = TokenType.GREATER_EQUAL)
       (\<lambda>opTok. if type opTok = TokenType.LESS then NodeType.LESS_THAN
             else if type opTok = TokenType.LESS_EQUAL then NodeType.LESS_EQUAL
             else if type opTok = TokenType.GREATER then NodeType.GREATER_THAN
             else NodeType.GREATER_EQUAL)
       (additiveExpression stod expr n) (relationalExpression_loop stod expr n)"
  by (intro ext) (simp add: loop_round_def)

lemma relationalExpression_level:
  "relationalExpression stod expr n =
     level_of (additiveExpression stod expr n) (relationalExpression_loop stod expr n)"
  by (intro ext) (simp add: relationalExpression_def level_of_def)

lemma relationalExpression_loop_tidy:
  assumes "tidy expr"
  shows "tidy_loop (relationalExpression_loop stod expr n)"
proof (induction n)
  case 0
  have "relationalExpression_loop stod expr 0 = (\<lambda>node s. None)"
    by (intro ext) simp
  then show ?case
    by (simp only: tidy_loop_None)
next
  case (Suc n)
  show ?case
    unfolding relationalExpression_loop_round
    by (rule loop_round_tidy [OF additiveExpression_tidy [OF assms] Suc.IH])
qed

lemma relationalExpression_tidy:
  assumes "tidy expr"
  shows "tidy (relationalExpression stod expr n)"
  unfolding relationalExpression_level
  by (rule level_of_tidy [OF additiveExpression_tidy [OF assms] relationalExpression_loop_tidy [OF assms]])

lemma equalityExpression_loop_round:
  "equalityExpression_loop stod expr (Suc n) =
     loop_round
       (\<lambda>opTok. type opTok = TokenType.EQUAL \<or> type opTok = TokenType.NOT_EQUAL)
       (\<lambda>opTok. if type opTok = TokenType.EQUAL then NodeType.EQUAL else NodeType.NOT_EQUAL)
       (relationalExpression stod expr n) (equalityExpression_loop stod expr n)"
  by (intro ext) (simp add: loop_round_def)

lemma equalityExpression_level:
  "equalityExpression stod expr n =
     level_of (relationalExpression stod expr n) (equalityExpression_loop stod expr n)"
  by (intro ext) (simp add: equalityExpression_def level_of_def)

lemma equalityExpression_loop_tidy:
  assumes "tidy expr"
  shows "tidy_loop (equalityExpression_loop stod expr n)"
proof (induction n)
  case 0
  have "equalityExpression_loop stod expr 0 = (\<lambda>node s. None)"
    by (intro ext) simp
  then show ?case
    by (simp only: tidy_loop_None)
next
  case (Suc n)
  show ?case
    unfolding equalityExpression_loop_round
    by (rule loop_round_tidy [OF relationalExpression_tidy [OF assms] Suc.IH])
qed

lemma equalityExpression_tidy:
  assumes "tidy expr"
  shows "tidy (equalityExpression stod expr n)"
  unfolding equalityExpression_level
  by (rule level_of_tidy [OF relationalExpression_tidy [OF assms] equalityExpression_loop_tidy [OF assms]])

lemma logicalAndExpression_loop_round:
  "logicalAndExpression_loop stod expr (Suc n) =
     loop_round
       (\<lambda>opTok. type opTok = TokenType.LOGICAL_AND)
       (\<lambda>opTok. NodeType.LOGICAL_AND)
       (equalityExpression stod expr n) (logicalAndExpression_loop stod expr n)"
  by (intro ext) (simp add: loop_round_def)

lemma logicalAndExpression_level:
  "logicalAndExpression stod expr n =
     level_of (equalityExpression stod expr n) (logicalAndExpression_loop stod expr n)"
  by (intro ext) (simp add: logicalAndExpression_def level_of_def)

lemma logicalAndExpression_loop_tidy:
  assumes "tidy expr"
  shows "tidy_loop (logicalAndExpression_loop stod expr n)"
proof (induction n)
  case 0
  have "logicalAndExpression_loop stod expr 0 = (\<lambda>node s. None)"
    by (intro ext) simp
  then show ?case
    by (simp only: tidy_loop_None)
next
  case (Suc n)
  show ?case
    unfolding logicalAndExpression_loop_round
    by (rule loop_round_tidy [OF equalityExpression_tidy [OF assms] Suc.IH])
qed

lemma logicalAndExpression_tidy:
  assumes "tidy expr"
  shows "tidy (logicalAndExpression stod expr n)"
  unfolding logicalAndExpression_level
  by (rule level_of_tidy [OF equalityExpression_tidy [OF assms] logicalAndExpression_loop_tidy [OF assms]])

lemma logicalXorExpression_loop_round:
  "logicalXorExpression_loop stod expr (Suc n) =
     loop_round
       (\<lambda>opTok. type opTok = TokenType.LOGICAL_XOR)
       (\<lambda>opTok. NodeType.LOGICAL_XOR)
       (logicalAndExpression stod expr n) (logicalXorExpression_loop stod expr n)"
  by (intro ext) (simp add: loop_round_def)

lemma logicalXorExpression_level:
  "logicalXorExpression stod expr n =
     level_of (logicalAndExpression stod expr n) (logicalXorExpression_loop stod expr n)"
  by (intro ext) (simp add: logicalXorExpression_def level_of_def)

lemma logicalXorExpression_loop_tidy:
  assumes "tidy expr"
  shows "tidy_loop (logicalXorExpression_loop stod expr n)"
proof (induction n)
  case 0
  have "logicalXorExpression_loop stod expr 0 = (\<lambda>node s. None)"
    by (intro ext) simp
  then show ?case
    by (simp only: tidy_loop_None)
next
  case (Suc n)
  show ?case
    unfolding logicalXorExpression_loop_round
    by (rule loop_round_tidy [OF logicalAndExpression_tidy [OF assms] Suc.IH])
qed

lemma logicalXorExpression_tidy:
  assumes "tidy expr"
  shows "tidy (logicalXorExpression stod expr n)"
  unfolding logicalXorExpression_level
  by (rule level_of_tidy [OF logicalAndExpression_tidy [OF assms] logicalXorExpression_loop_tidy [OF assms]])

lemma logicalOrExpression_loop_round:
  "logicalOrExpression_loop stod expr (Suc n) =
     loop_round
       (\<lambda>opTok. type opTok = TokenType.LOGICAL_OR)
       (\<lambda>opTok. NodeType.LOGICAL_OR)
       (logicalXorExpression stod expr n) (logicalOrExpression_loop stod expr n)"
  by (intro ext) (simp add: loop_round_def)

lemma logicalOrExpression_level:
  "logicalOrExpression stod expr n =
     level_of (logicalXorExpression stod expr n) (logicalOrExpression_loop stod expr n)"
  by (intro ext) (simp add: logicalOrExpression_def level_of_def)

lemma logicalOrExpression_loop_tidy:
  assumes "tidy expr"
  shows "tidy_loop (logicalOrExpression_loop stod expr n)"
proof (induction n)
  case 0
  have "logicalOrExpression_loop stod expr 0 = (\<lambda>node s. None)"
    by (intro ext) simp
  then show ?case
    by (simp only: tidy_loop_None)
next
  case (Suc n)
  show ?case
    unfolding logicalOrExpression_loop_round
    by (rule loop_round_tidy [OF logicalXorExpression_tidy [OF assms] Suc.IH])
qed

lemma logicalOrExpression_tidy:
  assumes "tidy expr"
  shows "tidy (logicalOrExpression stod expr n)"
  unfolding logicalOrExpression_level
  by (rule level_of_tidy [OF logicalXorExpression_tidy [OF assms] logicalOrExpression_loop_tidy [OF assms]])

text \<open>The assignment level once its left operand has been parsed.\<close>

lemma assignment_left_fails:
  assumes "logicalOrExpression stod expr n s = Some (r, s1)" and "r = Throws e \<or> r = Undefined"
  shows "assignmentExpression stod expr (Suc n) s = Some (r, s1)"
  using assms by auto

lemma assignment_after_left:
  assumes "logicalOrExpression stod expr n s = Some (Returns node, s1)"
  shows "assignmentExpression stod expr (Suc n) s =
     (case currentToken s1 of
        None \<Rightarrow> Some (Undefined, s1)
      | Some opTok \<Rightarrow>
          if type opTok = TokenType.ASSIGN then
            if ntype node \<noteq> NodeType.IDENTIFIER then
              Some (Throws (UnexpectedToken (line opTok) (column opTok) (tvalue opTok)),
                    s1\<lparr>heap := heap s1 - addrs node\<rparr>)
            else
              (case assignmentExpression stod expr n (advance s1) of
                 None \<Rightarrow> None
               | Some (Undefined, s2) \<Rightarrow> Some (Undefined, s2)
               | Some (Throws e, s2) \<Rightarrow> Some (Throws e, s2\<lparr>heap := heap s2 - addrs node\<rparr>)
               | Some (Returns valueNode, s2) \<Rightarrow>
                   Some (Returns (push_back (push_back (fst (new_Node NodeType.ASSIGN 0 [] s2)) node)
                                    valueNode),
                         snd (new_Node NodeType.ASSIGN 0 [] s2)))
          else Some (Returns node, s1))"
  using assms
  by (simp add: cleanup_node cleanup_none delete_tree_eq case_prod_beta
      split: option.splits outcome.splits prod.splits)

lemma assignment_cases:
  assumes run: "assignmentExpression stod expr (Suc n) s = Some (r, s')"
  obtains (left_undefined) "logicalOrExpression stod expr n s = Some (Undefined, s')" "r = Undefined"
    | (left_throws) e where "logicalOrExpression stod expr n s = Some (Throws e, s')" "r = Throws e"
    | (past) node where "logicalOrExpression stod expr n s = Some (Returns node, s')"
        "r = Undefined"
    | (plain) node where "logicalOrExpression stod expr n s = Some (Returns node, s')"
        "r = Returns node"
    | (reject) node s1 opTok where "logicalOrExpression stod expr n s = Some (Returns node, s1)"
        "currentToken s1 = Some opTok" "type opTok = TokenType.ASSIGN"
        "ntype node \<noteq> NodeType.IDENTIFIER"
        "r = Throws (UnexpectedToken (line opTok) (column opTok) (tvalue opTok))"
        "s' = s1\<lparr>heap := heap s1 - addrs node\<rparr>"
    | (right_undefined) node s1 where "logicalOrExpression stod expr n s = Some (Returns node, s1)"
        "assignmentExpression stod expr n (advance s1) = Some (Undefined, s')" "r = Undefined"
    | (right_throws) node s1 e s2 where "logicalOrExpression stod expr n s = Some (Returns node, s1)"
        "assignmentExpression stod expr n (advance s1) = Some (Throws e, s2)" "r = Throws e"
        "s' = s2\<lparr>heap := heap s2 - addrs node\<rparr>"
    | (assigns) node s1 valueNode s2 where
        "logicalOrExpression stod expr n s = Some (Returns node, s1)"
        "assignmentExpression stod expr n (advance s1) = Some (Returns valueNode, s2)"
        "r = Returns (push_back (push_back (fst (new_Node NodeType.ASSIGN 0 [] s2)) node) valueNode)"
        "s' = snd (new_Node NodeType.ASSIGN 0 [] s2)"
proof (cases "logicalOrExpression stod expr n s")
  case None
  with run show ?thesis by simp
next
  case res: (Some res)
  obtain r1 s1 where r1: "res = (r1, s1)" by (cases res)
  show ?thesis
  proof (cases r1)
    case Undefined
    have call: "logicalOrExpression stod expr n s = Some (Undefined, s1)"
      using res r1 Undefined by simp
    have "r = Undefined" and "s1 = s'"
      using run assignment_left_fails [OF call] by simp_all
    with call left_undefined show ?thesis by simp
  next
    case (Throws e)
    have call: "logicalOrExpression stod expr n s = Some (Throws e, s1)"
      using res r1 Throws by simp
    have "r = Throws e" and "s1 = s'"
      using run assignment_left_fails [OF call] by simp_all
    with call left_throws show ?thesis by simp
  next
    case (Returns node)
    have call: "logicalOrExpression stod expr n s = Some (Returns node, s1)"
      using res r1 Returns by simp
    note eq = run [unfolded assignment_after_left [OF call]]
    show ?thesis
    proof (cases "currentToken s1")
      case None
      with eq have "r = Undefined" and "s1 = s'" by simp_all
      with call past show ?thesis by simp
    next
      case tok: (Some opTok)
      show ?thesis
      proof (cases "type opTok = TokenType.ASSIGN")
        case False
        with eq tok have "r = Returns node" and "s1 = s'" by simp_all
        with call plain show ?thesis by simp
      next
        case assign: True
        show ?thesis
        proof (cases "ntype node = NodeType.IDENTIFIER")
          case False
          with eq tok assign
          have "r = Throws (UnexpectedToken (line opTok) (column opTok) (tvalue opTok))"
            and "s' = s1\<lparr>heap := heap s1 - addrs node\<rparr>"
            by simp_all
          with call tok assign False show ?thesis by (rule reject)
        next
          case ident: True
          have eq2: "(case assignmentExpression stod expr n (advance s1) of
                 None \<Rightarrow> None
               | Some (Undefined, s2) \<Rightarrow> Some (Undefined, s2)
               | Some (Throws e, s2) \<Rightarrow> Some (Throws e, s2\<lparr>heap := heap s2 - addrs node\<rparr>)
               | Some (Returns valueNode, s2) \<Rightarrow>
                   Some (Returns (push_back (push_back (fst (new_Node NodeType.ASSIGN 0 [] s2)) node)
                                    valueNode),
                         snd (new_Node NodeType.ASSIGN 0 [] s2))) = Some (r, s')"
            using eq tok assign ident by simp
          show ?thesis
          proof (cases "assignmentExpression stod expr n (advance s1)")
            case None
            with eq2 show ?thesis by simp
          next
            case rhs: (Some rhs)
            obtain r2 s2 where r2: "rhs = (r2, s2)" by (cases rhs)
            show ?thesis
            proof (cases r2)
              case Undefined
              have rcall: "assignmentExpression stod expr n (advance s1) = Some (Undefined, s2)"
                using rhs r2 Undefined by simp
              have "r = Undefined" and "s2 = s'"
                using eq2 unfolding rcall by simp_all
              with call rcall right_undefined show ?thesis by simp
            next
              case (Throws e)
              have rcall: "assignmentExpression stod expr n (advance s1) = Some (Throws e, s2)"
                using rhs r2 Throws by simp
              have "r = Throws e" and "s' = s2\<lparr>heap := heap s2 - addrs node\<rparr>"
                using eq2 unfolding rcall by simp_all
              with call rcall show ?thesis by (rule right_throws)
            next
              case (Returns valueNode)
              have rcall: "assignmentExpression stod expr n (advance s1) =
                             Some (Returns valueNode, s2)"
                using rhs r2 Returns by simp
              have "r = Returns (push_back (push_back (fst (new_Node NodeType.ASSIGN 0 [] s2)) node)
                                   valueNode)"
                and "s' = snd (new_Node NodeType.ASSIGN 0 [] s2)"
                using eq2 unfolding rcall by simp_all
              with call rcall show ?thesis by (rule assigns)
            qed
          qed
        qed
      qed
    qed
  qed
qed

lemma assignmentExpression_tidy:
  assumes "tidy expr"
  shows "tidy (assignmentExpression stod expr n)"
proof (induction n)
  case 0
  have "assignmentExpression stod expr 0 = (\<lambda>s. None)"
    by (intro ext) simp
  then show ?case
    by (simp only: tidy_None)
next
  case (Suc n)
  note left = logicalOrExpression_tidy [OF assms, of stod n]
  show ?case
  proof (rule tidyI)
    fix s t s'
    assume ok: "store_ok s"
      and run: "assignmentExpression stod expr (Suc n) s = Some (Returns t, s')"
    from run show "nextAddr s \<le> nextAddr s' \<and> addrs t \<subseteq> {nextAddr s..<nextAddr s'}
        \<and> heap s' = heap s \<union> addrs t"
    proof (cases rule: assignment_cases)
      case (plain node)
      with tidy_Returns [OF left ok plain(1)] show ?thesis by simp
    next
      case (assigns node s1 valueNode s2)
      note post = tidy_Returns [OF left ok assigns(1)]
      have ok1: "store_ok (advance s1)"
        using store_ok_grown [OF ok post] by simp
      note rhs = tidy_Returns [OF Suc.IH ok1 assigns(2), simplified]
      have t: "addrs t = insert (nextAddr s2) (addrs node \<union> addrs valueNode)"
        using assigns(3) by (simp add: new_Node_facts)
      have h: "heap s' = insert (nextAddr s2) (heap s2)"
        and n: "nextAddr s' = Suc (nextAddr s2)"
        unfolding assigns(4) by (simp_all add: new_Node_facts)
      show ?thesis
      proof (intro conjI)
        show "nextAddr s \<le> nextAddr s'"
          using post(1) rhs(1) n by simp
        show "addrs t \<subseteq> {nextAddr s..<nextAddr s'}"
          using post(1,2) rhs(1,2) unfolding t n by fastforce
        show "heap s' = heap s \<union> addrs t"
          using post(3) rhs(3) unfolding t h by blast
      qed
    qed simp_all
  next
    fix s e s'
    assume ok: "store_ok s"
      and run: "assignmentExpression stod expr (Suc n) s = Some (Throws e, s')"
    from run show "nextAddr s \<le> nextAddr s' \<and> heap s' = heap s"
    proof (cases rule: assignment_cases)
      case (left_throws e1)
      with tidy_Throws [OF left ok left_throws(1)] show ?thesis by simp
    next
      case (reject node s1 opTok)
      note post = tidy_Returns [OF left ok reject(1)]
      have "heap s \<inter> addrs node = {}"
        using fresh_apart [OF ok post(2)] .
      with post reject(6) show ?thesis by auto
    next
      case (right_throws node s1 e1 s2)
      note post = tidy_Returns [OF left ok right_throws(1)]
      have ok1: "store_ok (advance s1)"
        using store_ok_grown [OF ok post] by simp
      note rhs = tidy_Throws [OF Suc.IH ok1 right_throws(2), simplified]
      have "heap s \<inter> addrs node = {}"
        using fresh_apart [OF ok post(2)] .
      with post rhs right_throws(4) show ?thesis by auto
    qed simp_all
  next
    fix s s'
    assume ok: "store_ok s"
      and run: "assignmentExpression stod expr (Suc n) s = Some (Undefined, s')"
    from run show "nextAddr s \<le> nextAddr s'"
    proof (cases rule: assignment_cases)
      case left_undefined
      from tidy_Undefined [OF left ok left_undefined(1)] show ?thesis .
    next
      case (past node)
      from tidy_Returns(1) [OF left ok past(1)] show ?thesis .
    next
      case (right_undefined node s1)
      note post = tidy_Returns [OF left ok right_undefined(1)]
      have ok1: "store_ok (advance s1)"
        using store_ok_grown [OF ok post] by simp
      from tidy_Undefined [OF Suc.IH ok1 right_undefined(2)] post(1) show ?thesis by simp
    qed simp_all
  qed
qed

lemma expression_Suc:
  "expression stod (Suc n) = assignmentExpression stod (expression stod n) (Suc n)"
proof (intro ext)
  fix s
  show "expression stod (Suc n) s = assignmentExpression stod (expression stod n) (Suc n) s"
  proof (cases "assignmentExpression stod (expression stod n) (Suc n) s")
    case None
    then show ?thesis by (simp del: assignmentExpression.simps)
  next
    case (Some res)
    obtain r1 s1 where "res = (r1, s1)" by (cases res)
    with Some show ?thesis
      by (cases r1) (simp_all del: assignmentExpression.simps)
  qed
qed

lemma expression_tidy: "tidy (expression stod n)"
proof (induction n)
  case 0
  have "expression stod 0 = (\<lambda>s. None)"
    by (intro ext) simp
  then show ?case
    by (simp only: tidy_None)
next
  case (Suc n)
  show ?case
    unfolding expression_Suc by (rule assignmentExpression_tidy [OF Suc.IH])
qed

section \<open>More fuel changes no result\<close>

lemma belowD: "below p q \<Longrightarrow> p s = Some r \<Longrightarrow> q s = Some r"
  unfolding below_def by blast

lemma below_loopD: "below_loop lp lq \<Longrightarrow> lp node s = Some r \<Longrightarrow> lq node s = Some r"
  unfolding below_loop_def by blast

lemma below_None: "below (\<lambda>s. None) q"
  by (simp add: below_def)

lemma below_loop_None: "below_loop (\<lambda>node s. None) lq"
  by (simp add: below_loop_def)

lemma factor_mono:
  assumes "below expr expr'"
  shows "below (factor stod expr) (factor stod expr')"
  unfolding below_def
proof (intro allI impI)
  fix s r
  assume run: "factor stod expr s = Some r"
  show "factor stod expr' s = Some r"
  proof (cases "currentToken s")
    case None
    with run show ?thesis by (simp add: factor_past_end)
  next
    case (Some token)
    show ?thesis
    proof (cases "type token = TokenType.LEFT_PAREN")
      case False
      with Some have "factor stod expr' s = factor stod expr s"
        by (simp add: factor_def)
      with run show ?thesis by simp
    next
      case True
      let ?s0 = "advance (s\<lparr>unmatchedParentheses := unmatchedParentheses s + 1\<rparr>)"
      from run obtain r0 where inner: "expr ?s0 = Some r0"
        unfolding factor_paren [OF Some True] by (cases "expr ?s0") simp_all
      from belowD [OF assms inner] have "expr' ?s0 = expr ?s0"
        using inner by simp
      then have "factor stod expr' s = factor stod expr s"
        unfolding factor_paren [OF Some True] by simp
      with run show ?thesis by simp
    qed
  qed
qed

lemma loop_round_mono:
  assumes "below opnd opnd'" and "below_loop lp lp'"
  shows "below_loop (loop_round cond kind opnd lp) (loop_round cond kind opnd' lp')"
  unfolding below_loop_def
proof (intro allI impI)
  fix node s r
  assume run: "loop_round cond kind opnd lp node s = Some r"
  show "loop_round cond kind opnd' lp' node s = Some r"
  proof (cases "currentToken s")
    case None
    with run show ?thesis by (simp add: loop_round_past)
  next
    case (Some opTok)
    show ?thesis
    proof (cases "cond opTok")
      case False
      with run Some show ?thesis by (simp add: loop_round_stop)
    next
      case True
      note eq = loop_round_operand [of s opTok cond kind _ _ node, OF Some True]
      from run obtain r1 s1 where call: "opnd (advance s) = Some (r1, s1)"
        unfolding eq by (cases "opnd (advance s)") auto
      from belowD [OF assms(1) call] have call': "opnd' (advance s) = Some (r1, s1)" .
      show ?thesis
      proof (cases r1)
        case (Returns right)
        from run have
          "lp (push_back (push_back (fst (new_Node (kind opTok) 0 [] s1)) node) right)
              (snd (new_Node (kind opTok) 0 [] s1)) = Some r"
          unfolding eq call Returns by simp
        from below_loopD [OF assms(2) this] show ?thesis
          unfolding eq call' Returns by simp
      next
        case (Throws e)
        have "loop_round cond kind opnd' lp' node s = loop_round cond kind opnd lp node s"
          unfolding eq call call' Throws by simp
        with run show ?thesis by simp
      next
        case Undefined
        have "loop_round cond kind opnd' lp' node s = loop_round cond kind opnd lp node s"
          unfolding eq call call' Undefined by simp
        with run show ?thesis by simp
      qed
    qed
  qed
qed

lemma level_of_mono:
  assumes "below opnd opnd'" and "below_loop lp lp'"
  shows "below (level_of opnd lp) (level_of opnd' lp')"
  unfolding below_def
proof (intro allI impI)
  fix s r
  assume run: "level_of opnd lp s = Some r"
  then obtain r1 s1 where call: "opnd s = Some (r1, s1)"
    unfolding level_of_def by (cases "opnd s") auto
  from belowD [OF assms(1) call] have call': "opnd' s = Some (r1, s1)" .
  show "level_of opnd' lp' s = Some r"
  proof (cases r1)
    case (Returns node)
    from run have "lp node s1 = Some r"
      unfolding level_of_def call Returns by simp
    from below_loopD [OF assms(2) this] show ?thesis
      unfolding level_of_def call' Returns by simp
  next
    case (Throws e)
    have "level_of opnd' lp' s = level_of opnd lp s"
      unfolding level_of_def call call' Throws by simp
    with run show ?thesis by simp
  next
    case Undefined
    have "level_of opnd' lp' s = level_of opnd lp s"
      unfolding level_of_def call call' Undefined by simp
    with run show ?thesis by simp
  qed
qed

lemma multiplicativeExpression_loop_mono:
  "below expr expr' \<Longrightarrow> n \<le> n' \<Longrightarrow>
   below_loop (multiplicativeExpression_loop stod expr n) (multiplicativeExpression_loop stod expr' n')"
proof (induction n arbitrary: n')
  case 0
  have "multiplicativeExpression_loop stod expr 0 = (\<lambda>node s. None)"
    by (intro ext) simp
  then show ?case
    by (simp only: below_loop_None)
next
  case (Suc n)
  from Suc.prems(2) obtain k' where n': "n' = Suc k'" and k: "n \<le> k'"
    by (cases n') simp_all
  note e = Suc.prems(1)
  show ?case
    unfolding n' multiplicativeExpression_loop_round
    by (rule loop_round_mono [OF factor_mono [OF e] Suc.IH [OF e k]])
qed

lemma multiplicativeExpression_mono:
  assumes "below expr expr'" and "n \<le> n'"
  shows "below (multiplicativeExpression stod expr n) (multiplicativeExpression stod expr' n')"
  unfolding multiplicativeExpression_level
  by (rule level_of_mono [OF factor_mono [OF assms(1)] multiplicativeExpression_loop_mono [OF assms]])

lemma additiveExpression_loop_mono:
  "below expr expr' \<Longrightarrow> n \<le> n' \<Longrightarrow>
   below_loop (additiveExpression_loop stod expr n) (additiveExpression_loop stod expr' n')"
proof (induction n arbitrary: n')
  case 0
  have "additiveExpression_loop stod expr 0 = (\<lambda>node s. None)"
    by (intro ext) simp
  then show ?case
    by (simp only: below_loop_None)
next
  case (Suc n)
  from Suc.prems(2) obtain k' where n': "n' = Suc k'" and k: "n \<le> k'"
    by (cases n') simp_all
  note e = Suc.prems(1)
  show ?case
    unfolding n' additiveExpression_loop_round
    by (rule loop_round_mono [OF multiplicativeExpression_mono [OF e k] Suc.IH [OF e k]])
qed

lemma additiveExpression_mono:
  assumes "below expr expr'" and "n \<le> n'"
  shows "below (additiveExpression stod expr n) (additiveExpression stod expr' n')"
  unfolding additiveExpression_level
  by (rule level_of_mono [OF multiplicativeExpression_mono [OF assms] additiveExpression_loop_mono [OF assms]])

lemma relationalExpression_loop_mono:
  "below expr expr' \<Longrightarrow> n \<le> n' \<Longrightarrow>
   below_loop (relationalExpression_loop stod expr n) (relationalExpression_loop stod expr' n')"
proof (induction n arbitrary: n')
  case 0
  have "relationalExpression_loop stod expr 0 = (\<lambda>node s. None)"
    by (intro ext) simp
  then show ?case
    by (simp only: below_loop_None)
next
  case (Suc n)
  from Suc.prems(2) obtain k' where n': "n' = Suc k'" and k: "n \<le> k'"
    by (cases n') simp_all
  note e = Suc.prems(1)
  show ?case
    unfolding n' relationalExpression_loop_round
    by (rule loop_round_mono [OF additiveExpression_mono [OF e k] Suc.IH [OF e k]])
qed

lemma relationalExpression_mono:
  assumes "below expr expr'" and "n \<le> n'"
  shows "below (relationalExpression stod expr n) (relationalExpression stod expr' n')"
  unfolding relationalExpression_level
  by (rule level_of_mono [OF additiveExpression_mono [OF assms] relationalExpression_loop_mono [OF assms]])

lemma equalityExpression_loop_mono:
  "below expr expr' \<Longrightarrow> n \<le> n' \<Longrightarrow>
   below_loop (equalityExpression_loop stod expr n) (equalityExpression_loop stod expr' n')"
proof (induction n arbitrary: n')
  case 0
  have "equalityExpression_loop stod expr 0 = (\<lambda>node s. None)"
    by (intro ext) simp
  then show ?case
    by (simp only: below_loop_None)
next
  case (Suc n)
  from Suc.prems(2) obtain k' where n': "n' = Suc k'" and k: "n \<le> k'"
    by (cases n') simp_all
  note e = Suc.prems(1)
  show ?case
    unfolding n' equalityExpression_loop_round
    by (rule loop_round_mono [OF relationalExpression_mono [OF e k] Suc.IH [OF e k]])
qed

lemma equalityExpression_mono:
  assumes "below expr expr'" and "n \<le> n'"
  shows "below (equalityExpression stod expr n) (equalityExpression stod expr' n')"
  unfolding equalityExpression_level
  by (rule level_of_mono [OF relationalExpression_mono [OF assms] equalityExpression_loop_mono [OF assms]])

lemma logicalAndExpression_loop_mono:
  "below expr expr' \<Longrightarrow> n \<le> n' \<Longrightarrow>
   below_loop (logicalAndExpression_loop stod expr n) (logicalAndExpression_loop stod expr' n')"
proof (induction n arbitrary: n')
  case 0
  have "logicalAndExpression_loop stod expr 0 = (\<lambda>node s. None)"
    by (intro ext) simp
  then show ?case
    by (simp only: below_loop_None)
next
  case (Suc n)
  from Suc.prems(2) obtain k' where n': "n' = Suc k'" and k: "n \<le> k'"
    by (cases n') simp_all
  note e = Suc.prems(1)
  show ?case
    unfolding n' logicalAndExpression_loop_round
    by (rule loop_round_mono [OF equalityExpression_mono [OF e k] Suc.IH [OF e k]])
qed

lemma logicalAndExpression_mono:
  assumes "below expr expr'" and "n \<le> n'"
  shows "below (logicalAndExpression stod expr n) (logicalAndExpression stod expr' n')"
  unfolding logicalAndExpression_level
  by (rule level_of_mono [OF equalityExpression_mono [OF assms] logicalAndExpression_loop_mono [OF assms]])

lemma logicalXorExpression_loop_mono:
  "below expr expr' \<Longrightarrow> n \<le> n' \<Longrightarrow>
   below_loop (logicalXorExpression_loop stod expr n) (logicalXorExpression_loop stod expr' n')"
proof (induction n arbitrary: n')
  case 0
  have "logicalXorExpression_loop stod expr 0 = (\<lambda>node s. None)"
    by (intro ext) simp
  then show ?case
    by (simp only: below_loop_None)
next
  case (Suc n)
  from Suc.prems(2) obtain k' where n': "n' = Suc k'" and k: "n \<le> k'"
    by (cases n') simp_all
  note e = Suc.prems(1)
  show ?case
    unfolding n' logicalXorExpression_loop_round
    by (rule loop_round_mono [OF logicalAndExpression_mono [OF e k] Suc.IH [OF e k]])
qed

lemma logicalXorExpression_mono:
  assumes "below expr expr'" and "n \<le> n'"
  shows "below (logicalXorExpression stod expr n) (logicalXorExpression stod expr' n')"
  unfolding logicalXorExpression_level
  by (rule level_of_mono [OF logicalAndExpression_mono [OF assms] logicalXorExpression_loop_mono [OF assms]])

lemma logicalOrExpression_loop_mono:
  "below expr expr' \<Longrightarrow> n \<le> n' \<Longrightarrow>
   below_loop (logicalOrExpression_loop stod expr n) (logicalOrExpression_loop stod expr' n')"
proof (induction n arbitrary: n')
  case 0
  have "logicalOrExpression_loop stod expr 0 = (\<lambda>node s. None)"
    by (intro ext) simp
  then show ?case
    by (simp only: below_loop_None)
next
  case (Suc n)
  from Suc.prems(2) obtain k' where n': "n' = Suc k'" and k: "n \<le> k'"
    by (cases n') simp_all
  note e = Suc.prems(1)
  show ?case
    unfolding n' logicalOrExpression_loop_round
    by (rule loop_round_mono [OF logicalXorExpression_mono [OF e k] Suc.IH [OF e k]])
qed

lemma logicalOrExpression_mono:
  assumes "below expr expr'" and "n \<le> n'"
  shows "below (logicalOrExpression stod expr n) (logicalOrExpression stod expr' n')"
  unfolding logicalOrExpression_level
  by (rule level_of_mono [OF logicalXorExpression_mono [OF assms] logicalOrExpression_loop_mono [OF assms]])

lemma assignmentExpression_mono:
  "below expr expr' \<Longrightarrow> n \<le> n' \<Longrightarrow>
   below (assignmentExpression stod expr n) (assignmentExpression stod expr' n')"
proof (induction n arbitrary: n')
  case 0
  have "assignmentExpression stod expr 0 = (\<lambda>s. None)"
    by (intro ext) simp
  then show ?case
    by (simp only: below_None)
next
  case (Suc n)
  from Suc.prems(2) obtain k' where n': "n' = Suc k'" and k: "n \<le> k'"
    by (cases n') simp_all
  note e = Suc.prems(1)
  show ?case
    unfolding n' below_def
  proof (intro allI impI)
    fix s r
    assume run: "assignmentExpression stod expr (Suc n) s = Some r"
    then obtain r1 s1 where left: "logicalOrExpression stod expr n s = Some (r1, s1)"
      by (cases "logicalOrExpression stod expr n s") auto
    from belowD [OF logicalOrExpression_mono [OF e k] left]
    have left': "logicalOrExpression stod expr' k' s = Some (r1, s1)" .
    have "assignmentExpression stod expr' (Suc k') s = assignmentExpression stod expr (Suc n) s"
    proof (cases r1)
      case (Throws x)
      with left left' show ?thesis
        by (simp add: assignment_left_fails del: assignmentExpression.simps)
    next
      case Undefined
      with left left' show ?thesis
        by (simp add: assignment_left_fails del: assignmentExpression.simps)
    next
      case (Returns node)
      note l = left [unfolded Returns] and l' = left' [unfolded Returns]
      show ?thesis
      proof (cases "\<exists>opTok. currentToken s1 = Some opTok \<and> type opTok = TokenType.ASSIGN
                       \<and> ntype node = NodeType.IDENTIFIER")
        case False
        then show ?thesis
          unfolding assignment_after_left [OF l] assignment_after_left [OF l']
          by (auto split: option.splits)
      next
        case True
        then obtain opTok where tok: "currentToken s1 = Some opTok"
          and assign: "type opTok = TokenType.ASSIGN" and ident: "ntype node = NodeType.IDENTIFIER"
          by blast
        from run obtain r2 where rhs: "assignmentExpression stod expr n (advance s1) = Some r2"
          unfolding assignment_after_left [OF l] using tok assign ident
          by (cases "assignmentExpression stod expr n (advance s1)") simp_all
        from belowD [OF Suc.IH [OF e k] rhs]
        have rhs': "assignmentExpression stod expr' k' (advance s1) = Some r2" .
        show ?thesis
          unfolding assignment_after_left [OF l] assignment_after_left [OF l'] rhs rhs' ..
      qed
    qed
    with run show "assignmentExpression stod expr' (Suc k') s = Some r"
      by simp
  qed
qed

lemma expression_mono: "n \<le> n' \<Longrightarrow> below (expression stod n) (expression stod n')"
proof (induction n arbitrary: n')
  case 0
  have "expression stod 0 = (\<lambda>s. None)"
    by (intro ext) simp
  then show ?case
    by (simp only: below_None)
next
  case (Suc n)
  from Suc.prems obtain k' where n': "n' = Suc k'" and k: "n \<le> k'"
    by (cases n') simp_all
  have "Suc n \<le> Suc k'"
    using k by simp
  from assignmentExpression_mono [OF Suc.IH [OF k] this] show ?case
    unfolding n' expression_Suc .
qed

text \<open>
  Fuel only decides whether a run comes to its end: a run that ends with some fuel
  ends the same way with more.
\<close>

lemma parse_loop_mono:
  "n \<le> n' \<Longrightarrow> parse_loop stod n statements statementLine s = Some r \<Longrightarrow>
   parse_loop stod n' statements statementLine s = Some r"
proof (induction n arbitrary: n' statements statementLine s)
  case 0
  then show ?case by simp
next
  case (Suc n)
  from Suc.prems(1) obtain k' where n': "n' = Suc k'" and k: "n \<le> k'"
    by (cases n') simp_all
  note run = Suc.prems(2)
  show ?case
  proof (cases "currentToken s")
    case None
    with run show ?thesis unfolding n' by simp
  next
    case (Some tok)
    show ?thesis
    proof (cases "type tok = TokenType.UNKNOWN")
      case True
      with run Some show ?thesis unfolding n' by simp
    next
      case False
      from run Some False obtain r1 s1 where call: "expression stod n s = Some (r1, s1)"
        by (cases "expression stod n s") auto
      from belowD [OF expression_mono [OF k] call]
      have call': "expression stod k' s = Some (r1, s1)" .
      show ?thesis
      proof (cases r1)
        case (Throws e)
        with run Some False call call' show ?thesis unfolding n' by simp
      next
        case Undefined
        with run Some False call call' show ?thesis unfolding n' by simp
      next
        case (Returns stmt)
        show ?thesis
        proof (cases "currentToken s1")
          case None
          with run Some False call call' Returns show ?thesis unfolding n' by simp
        next
          case nxt: (Some nxt)
          show ?thesis
          proof (cases "type nxt = TokenType.UNKNOWN \<or> line nxt > statementLine")
            case False
            with run Some \<open>type tok \<noteq> TokenType.UNKNOWN\<close> call call' Returns nxt
            show ?thesis unfolding n' by (simp add: case_prod_beta)
          next
            case True
            with run Some \<open>type tok \<noteq> TokenType.UNKNOWN\<close> call Returns nxt
            have "parse_loop stod n (statements @ [Some stmt])
                    (if type nxt \<noteq> TokenType.UNKNOWN then line nxt else statementLine) s1 = Some r"
              by simp
            from Suc.IH [OF k this] True Some \<open>type tok \<noteq> TokenType.UNKNOWN\<close> call' Returns nxt
            show ?thesis unfolding n' by simp
          qed
        qed
      qed
    qed
  qed
qed

lemma parse_mono:
  "n \<le> n' \<Longrightarrow> parse stod n s = Some r \<Longrightarrow> parse stod n' s = Some r"
  unfolding parse_def
  by (cases "currentToken s") (simp_all add: parse_loop_mono)

section \<open>The lexer on a malformed number\<close>

lemma tokenize_1_2_3:
  "tokenize ''1.2.3'' =
     Some [Token TokenType.UNKNOWN ''1.2.'' 1 1, Token TokenType.NUMBER ''3'' 1 5,
           Token TokenType.UNKNOWN ''END'' 1 6]"
  by code_simp

text \<open>
  C3, as the specification states it, fails: the text \<^verbatim>\<open>1.2.3\<close> is not one token.
  \<^verbatim>\<open>number()\<close> returns at the second point, which it has read, so the first token
  carries the text \<^verbatim>\<open>1.2.\<close> and the digit after it is a token of its own.
\<close>

theorem malformed_number_counterexample:
  "map tvalue (the (tokenize ''1.2.3'')) = [''1.2.'', ''3'', ''END'']
   \<and> map type (the (tokenize ''1.2.3'')) =
       [TokenType.UNKNOWN, TokenType.NUMBER, TokenType.UNKNOWN]"
  by (simp add: tokenize_1_2_3)

text \<open>
  C3, amended: the text \<^verbatim>\<open>1.2.3\<close> gives three tokens, an \<^verbatim>\<open>UNKNOWN\<close> token with the text
  \<^verbatim>\<open>1.2.\<close> at line 1, column 1, the number \<^verbatim>\<open>3\<close> at column 5 and the end sentinel at
  column 6; and \<^verbatim>\<open>factor()\<close> called at that first token throws the unexpected-token
  error with the token's line, column and text, and leaves the parser as it was.
\<close>

theorem malformed_number_tokens:
  "tokenize ''1.2.3'' =
     Some [Token TokenType.UNKNOWN ''1.2.'' 1 1, Token TokenType.NUMBER ''3'' 1 5,
           Token TokenType.UNKNOWN ''END'' 1 6]
   \<and> factor stod expr
         (InfixParser_init [Token TokenType.UNKNOWN ''1.2.'' 1 1, Token TokenType.NUMBER ''3'' 1 5,
                            Token TokenType.UNKNOWN ''END'' 1 6]) =
       Some (Throws (UnexpectedToken 1 1 ''1.2.''),
             InfixParser_init [Token TokenType.UNKNOWN ''1.2.'' 1 1, Token TokenType.NUMBER ''3'' 1 5,
                               Token TokenType.UNKNOWN ''END'' 1 6])"
  by (simp add: tokenize_1_2_3 factor_def currentToken_def InfixParser_init_def)

section \<open>The lexer at a character it does not know\<close>

text \<open>
  C4.  Let the input be a text \<open>pre\<close> of characters the lexer has a branch for, then a
  character \<open>c\<close> that is no whitespace, no parenthesis, no digit or point and no
  operator, then any text \<open>rest\<close>.  Then \<^verbatim>\<open>tokenize()\<close> returns the tokens of \<open>pre\<close>
  (those it returns for \<open>pre\<close> alone, without the end sentinel) followed by one
  \<^verbatim>\<open>UNKNOWN\<close> token whose text is the single character \<open>c\<close>.  That token is the last
  one, no end sentinel follows it, and the lexer is left with exactly \<open>rest\<close> unread.
\<close>

theorem tokenize_stops_at_unrecognised:
  assumes "\<forall>x\<in>set pre. recognised x"
    and "\<not> std_isspace c" and "c \<noteq> CHR ''(''" and "c \<noteq> CHR '')''"
    and "\<not> isDigit c" and "\<not> isOperator c"
  shows "\<exists>ts l k.
           tokenize_loop [] (Lexer_init (pre @ c # rest)) =
             Some (ts @ [Token TokenType.UNKNOWN [c] l (k + 1)],
                   \<lparr>inputStream = rest, cur_line = l, col = k + 1\<rparr>)
           \<and> tokenize pre = Some (ts @ [Token TokenType.UNKNOWN ''END'' l k])"
proof -
  have c: "\<not> recognised c"
    using assms(2-6) by (simp add: recognised_def)
  from tokenize_prefix_then_unknown [OF assms(1) c, of rest] show ?thesis
    by (auto simp: tokenize_def)
qed

text \<open>The instance of C4 for the input \<^verbatim>\<open>(1 + 2) $3 + 4\<close>.\<close>

theorem tokenize_stops_at_unrecognised_witness:
  "list_all recognised ''(1 + 2) ''
   \<and> \<not> std_isspace (CHR ''$'') \<and> CHR ''$'' \<noteq> CHR ''('' \<and> CHR ''$'' \<noteq> CHR '')''
   \<and> \<not> isDigit (CHR ''$'') \<and> \<not> isOperator (CHR ''$'')
   \<and> (\<exists>ts l k.
           tokenize_loop [] (Lexer_init (''(1 + 2) '' @ CHR ''$'' # ''3 + 4'')) =
             Some (ts @ [Token TokenType.UNKNOWN [CHR ''$''] l (k + 1)],
                   \<lparr>inputStream = ''3 + 4'', cur_line = l, col = k + 1\<rparr>)
           \<and> tokenize ''(1 + 2) '' = Some (ts @ [Token TokenType.UNKNOWN ''END'' l k]))"
proof -
  have pre: "\<forall>x\<in>set ''(1 + 2) ''. recognised x"
    by (simp add: recognised_def std_isspace_def isDigit_def std_isdigit_def isOperator_def)
  have c: "\<not> std_isspace (CHR ''$'')" "CHR ''$'' \<noteq> CHR ''(''" "CHR ''$'' \<noteq> CHR '')''"
    "\<not> isDigit (CHR ''$'')" "\<not> isOperator (CHR ''$'')"
    by (simp_all add: std_isspace_def isDigit_def std_isdigit_def isOperator_def)
  from tokenize_stops_at_unrecognised [OF pre c, of "''3 + 4''"] pre c show ?thesis
    unfolding list_all_iff by blast
qed

text \<open>
  C10.  The \<^verbatim>\<open>UNKNOWN\<close> token of the stopping branch carries the line of the offending
  character and a column one greater than the character's own column: the character
  is consumed, which advances \<^verbatim>\<open>col\<close>, before \<^verbatim>\<open>line\<close> and \<^verbatim>\<open>col\<close> are read into the
  token.
\<close>

theorem unknown_token_column:
  assumes "\<forall>x\<in>set pre. recognised x" and "\<not> recognised c"
  shows "\<exists>ts. tokenize (pre @ c # rest) =
           Some (ts @ [Token TokenType.UNKNOWN [c] (line_of pre) (column_of pre + 1)])"
  using tokenize_prefix_then_unknown [OF assms, of rest]
  by (auto simp: tokenize_def)

text \<open>
  The instance of C10 for a second line \<^verbatim>\<open>2 + xyz\<close>: the character \<^verbatim>\<open>x\<close> stands at
  line 2, column 5, and its token says column 6; so does the error of \<^verbatim>\<open>parse()\<close>,
  which \<^verbatim>\<open>factor()\<close> builds from that token.
\<close>

theorem unknown_token_column_witness:
  "list_all recognised [CHR ''1'', CHR 0x0A, CHR ''2'', CHR '' '', CHR ''+'', CHR '' '']
   \<and> \<not> recognised (CHR ''x'')
   \<and> line_of [CHR ''1'', CHR 0x0A, CHR ''2'', CHR '' '', CHR ''+'', CHR '' ''] = 2
   \<and> column_of [CHR ''1'', CHR 0x0A, CHR ''2'', CHR '' '', CHR ''+'', CHR '' ''] = 5
   \<and> (\<exists>ts. tokenize ([CHR ''1'', CHR 0x0A, CHR ''2'', CHR '' '', CHR ''+'', CHR '' ''] @ CHR ''x'' # ''yz'') =
           Some (ts @ [Token TokenType.UNKNOWN [CHR ''x''] 2 6]))
   \<and> tokenize [CHR ''1'', CHR 0x0A, CHR ''2'', CHR '' '', CHR ''+'', CHR '' '', CHR ''x'',
                 CHR ''y'', CHR ''z''] =
       Some [Token TokenType.NUMBER ''1'' 1 1, Token TokenType.NUMBER ''2'' 2 1,
             Token TokenType.ADD ''+'' 2 3, Token TokenType.UNKNOWN ''x'' 2 6]
   \<and> parse [''1'' \<mapsto> 1, ''2'' \<mapsto> 2] 5
         (InfixParser_init
            [Token TokenType.NUMBER ''1'' 1 1, Token TokenType.NUMBER ''2'' 2 1,
             Token TokenType.ADD ''+'' 2 3, Token TokenType.UNKNOWN ''x'' 2 6]) =
       Some (Throws (UnexpectedToken 2 6 ''x''),
             \<lparr>tokens = [Token TokenType.NUMBER ''1'' 1 1, Token TokenType.NUMBER ''2'' 2 1,
                        Token TokenType.ADD ''+'' 2 3, Token TokenType.UNKNOWN ''x'' 2 6],
              currentTokenIndex = 3, root = None, unmatchedParentheses = 0,
              heap = {}, nextAddr = 2\<rparr>)"
proof -
  let ?pre = "[CHR ''1'', CHR 0x0A, CHR ''2'', CHR '' '', CHR ''+'', CHR '' '']"
  have pre: "\<forall>x\<in>set ?pre. recognised x"
    by (simp add: recognised_def std_isspace_def isDigit_def std_isdigit_def isOperator_def)
  have c: "\<not> recognised (CHR ''x'')"
    by (simp add: recognised_def std_isspace_def isDigit_def std_isdigit_def isOperator_def)
  have pos: "line_of ?pre = 2" "column_of ?pre = 5"
    by (simp_all add: line_of_def column_of_def)
  have toks: "tokenize [CHR ''1'', CHR 0x0A, CHR ''2'', CHR '' '', CHR ''+'', CHR '' '', CHR ''x'',
                 CHR ''y'', CHR ''z''] =
       Some [Token TokenType.NUMBER ''1'' 1 1, Token TokenType.NUMBER ''2'' 2 1,
             Token TokenType.ADD ''+'' 2 3, Token TokenType.UNKNOWN ''x'' 2 6]"
    by code_simp
  have msg: "parse [''1'' \<mapsto> 1, ''2'' \<mapsto> 2] 5
         (InfixParser_init
            [Token TokenType.NUMBER ''1'' 1 1, Token TokenType.NUMBER ''2'' 2 1,
             Token TokenType.ADD ''+'' 2 3, Token TokenType.UNKNOWN ''x'' 2 6]) =
       Some (Throws (UnexpectedToken 2 6 ''x''),
             \<lparr>tokens = [Token TokenType.NUMBER ''1'' 1 1, Token TokenType.NUMBER ''2'' 2 1,
                        Token TokenType.ADD ''+'' 2 3, Token TokenType.UNKNOWN ''x'' 2 6],
              currentTokenIndex = 3, root = None, unmatchedParentheses = 0,
              heap = {}, nextAddr = 2\<rparr>)"
    by (auto simp add: cascade_defs eval_nat_numeral delete_tree_eq)
  have last_token: "\<exists>ts. tokenize (?pre @ CHR ''x'' # ''yz'') =
                      Some (ts @ [Token TokenType.UNKNOWN [CHR ''x''] 2 6])"
    using unknown_token_column [OF pre c, of "''yz''"] pos by simp
  from last_token pre c pos toks msg show ?thesis
    unfolding list_all_iff by blast
qed

section \<open>Associativity and precedence\<close>

text \<open>
  C5.  Three number tokens with two operator tokens of one left-associative level
  between them, then the end sentinel: \<^verbatim>\<open>parse()\<close> returns one statement, whose root is
  the node of the second operator with the node of the first operator as its left
  child.  The addresses show the order of allocation: the left-hand node (address 2)
  exists before the third operand (address 3) and is wrapped by the later node
  (address 4).  Five units of fuel are enough, and more change nothing.
\<close>

theorem left_associative_levels:
  assumes "operator_table (type opA) = Some (lv, ntA)"
    and "operator_table (type opB) = Some (lv, ntB)"
    and "stod a = Some va" and "stod b = Some vb" and "stod c = Some vc"
    and "type e = TokenType.UNKNOWN" and "5 \<le> n"
  shows "parse stod n
           (InfixParser_init
              [Token TokenType.NUMBER a la ca, opA, Token TokenType.NUMBER b lb cb,
               opB, Token TokenType.NUMBER c lc cc, e]) =
         Some (Returns [Some (Node 4 ntB 0 []
                          [Node 2 ntA 0 []
                             [Node 0 NodeType.NUMBER va [] [], Node 1 NodeType.NUMBER vb [] []],
                           Node 3 NodeType.NUMBER vc [] []])],
               \<lparr>tokens = [Token TokenType.NUMBER a la ca, opA, Token TokenType.NUMBER b lb cb,
                          opB, Token TokenType.NUMBER c lc cc, e],
                currentTokenIndex = 5, root = None, unmatchedParentheses = 0,
                heap = {0, 1, 2, 3, 4}, nextAddr = 5\<rparr>)"
proof -
  from fuel_5 [OF assms(7)] obtain m where n: "n = Suc (Suc (Suc (Suc (Suc m))))"
    by blast
  obtain t1 x1 l1 c1 where opA: "opA = Token t1 x1 l1 c1"
    by (cases opA)
  obtain t2 x2 l2 c2 where opB: "opB = Token t2 x2 l2 c2"
    by (cases opB)
  obtain x3 l3 c3 where e: "e = Token TokenType.UNKNOWN x3 l3 c3"
    using assms(6) by (cases e) simp
  have t: "operator_table t1 = Some (lv, ntA)" "operator_table t2 = Some (lv, ntB)"
    using assms(1,2) opA opB by simp_all
  show ?thesis
    unfolding n opA opB e
    by (rule left_deep_fuel [where lv = lv]) (rule t assms(3-5))+
qed

text \<open>
  The instance of C5 for the text \<^verbatim>\<open>8 - 3 - 2\<close>, tokenised by the lexer: the tree is
  \<^verbatim>\<open>SUBTRACT(SUBTRACT(8, 3), 2)\<close>.
\<close>

theorem left_associative_levels_witness:
  "tokenize ''8 - 3 - 2'' =
     Some [Token TokenType.NUMBER ''8'' 1 1, Token TokenType.SUBTRACT ''-'' 1 3,
           Token TokenType.NUMBER ''3'' 1 5, Token TokenType.SUBTRACT ''-'' 1 7,
           Token TokenType.NUMBER ''2'' 1 9, Token TokenType.UNKNOWN ''END'' 1 10]
   \<and> parse [''8'' \<mapsto> 8, ''3'' \<mapsto> 3, ''2'' \<mapsto> 2] 5
         (InfixParser_init
            [Token TokenType.NUMBER ''8'' 1 1, Token TokenType.SUBTRACT ''-'' 1 3,
             Token TokenType.NUMBER ''3'' 1 5, Token TokenType.SUBTRACT ''-'' 1 7,
             Token TokenType.NUMBER ''2'' 1 9, Token TokenType.UNKNOWN ''END'' 1 10]) =
       Some (Returns [Some (Node 4 NodeType.SUBTRACT 0 []
                        [Node 2 NodeType.SUBTRACT 0 []
                           [Node 0 NodeType.NUMBER 8 [] [], Node 1 NodeType.NUMBER 3 [] []],
                         Node 3 NodeType.NUMBER 2 [] []])],
             \<lparr>tokens = [Token TokenType.NUMBER ''8'' 1 1, Token TokenType.SUBTRACT ''-'' 1 3,
                        Token TokenType.NUMBER ''3'' 1 5, Token TokenType.SUBTRACT ''-'' 1 7,
                        Token TokenType.NUMBER ''2'' 1 9, Token TokenType.UNKNOWN ''END'' 1 10],
              currentTokenIndex = 5, root = None, unmatchedParentheses = 0,
              heap = {0, 1, 2, 3, 4}, nextAddr = 5\<rparr>)"
  using left_associative_levels
    [where opA = "Token TokenType.SUBTRACT ''-'' 1 3" and opB = "Token TokenType.SUBTRACT ''-'' 1 7"
       and lv = 6 and ntA = NodeType.SUBTRACT and ntB = NodeType.SUBTRACT
       and stod = "[''8'' \<mapsto> 8, ''3'' \<mapsto> 3, ''2'' \<mapsto> 2]"
       and a = "''8''" and va = 8 and b = "''3''" and vb = 3 and c = "''2''" and vc = 2
       and e = "Token TokenType.UNKNOWN ''END'' 1 10" and n = 5
       and la = 1 and ca = 1 and lb = 1 and cb = 5 and lc = 1 and cc = 9]
  by (simp add: tokenize_8_3_2)

text \<open>
  C6.  Assignment is right-associative: for the tokens identifier \<open>a\<close>, \<^verbatim>\<open>=\<close>, identifier
  \<open>b\<close>, \<^verbatim>\<open>=\<close>, a number, and the end sentinel, \<^verbatim>\<open>parse()\<close> returns the tree
  \<^verbatim>\<open>ASSIGN(a, ASSIGN(b, number))\<close>.  The inner assignment (address 3) is complete
  before the outer node (address 4) is allocated: the level calls itself for the
  right-hand side and wraps afterwards.
\<close>

theorem assignment_right_associative:
  assumes "stod v = Some x" and "type e = TokenType.UNKNOWN" and "5 \<le> n"
  shows "parse stod n
           (InfixParser_init
              [Token TokenType.IDENTIFIER a l1 c1, Token TokenType.ASSIGN x1 l2 c2,
               Token TokenType.IDENTIFIER b l3 c3, Token TokenType.ASSIGN x2 l4 c4,
               Token TokenType.NUMBER v l5 c5, e]) =
         Some (Returns [Some (Node 4 NodeType.ASSIGN 0 []
                          [Node 0 NodeType.IDENTIFIER 0 a [],
                           Node 3 NodeType.ASSIGN 0 []
                             [Node 1 NodeType.IDENTIFIER 0 b [], Node 2 NodeType.NUMBER x [] []]])],
               \<lparr>tokens = [Token TokenType.IDENTIFIER a l1 c1, Token TokenType.ASSIGN x1 l2 c2,
                          Token TokenType.IDENTIFIER b l3 c3, Token TokenType.ASSIGN x2 l4 c4,
                          Token TokenType.NUMBER v l5 c5, e],
                currentTokenIndex = 5, root = None, unmatchedParentheses = 0,
                heap = {0, 1, 2, 3, 4}, nextAddr = 5\<rparr>)"
proof -
  from fuel_5 [OF assms(3)] obtain m where n: "n = Suc (Suc (Suc (Suc (Suc m))))"
    by blast
  obtain x3 l6 c6 where e: "e = Token TokenType.UNKNOWN x3 l6 c6"
    using assms(2) by (cases e) simp
  show ?thesis
    unfolding n e by (rule right_nested_fuel) (rule assms(1))
qed

text \<open>The instance of C6 for the tokens of \<^verbatim>\<open>a = b = 5\<close>.\<close>

theorem assignment_right_associative_witness:
  "parse [''5'' \<mapsto> 5] 5
     (InfixParser_init
        [Token TokenType.IDENTIFIER ''a'' 1 1, Token TokenType.ASSIGN ''='' 1 3,
         Token TokenType.IDENTIFIER ''b'' 1 5, Token TokenType.ASSIGN ''='' 1 7,
         Token TokenType.NUMBER ''5'' 1 9, Token TokenType.UNKNOWN ''END'' 1 10]) =
   Some (Returns [Some (Node 4 NodeType.ASSIGN 0 []
                    [Node 0 NodeType.IDENTIFIER 0 ''a'' [],
                     Node 3 NodeType.ASSIGN 0 []
                       [Node 1 NodeType.IDENTIFIER 0 ''b'' [], Node 2 NodeType.NUMBER 5 [] []]])],
         \<lparr>tokens = [Token TokenType.IDENTIFIER ''a'' 1 1, Token TokenType.ASSIGN ''='' 1 3,
                    Token TokenType.IDENTIFIER ''b'' 1 5, Token TokenType.ASSIGN ''='' 1 7,
                    Token TokenType.NUMBER ''5'' 1 9, Token TokenType.UNKNOWN ''END'' 1 10],
          currentTokenIndex = 5, root = None, unmatchedParentheses = 0,
          heap = {0, 1, 2, 3, 4}, nextAddr = 5\<rparr>)"
  using assignment_right_associative
    [where stod = "[''5'' \<mapsto> 5]" and v = "''5''" and x = 5
       and e = "Token TokenType.UNKNOWN ''END'' 1 10" and n = 5
       and a = "''a''" and b = "''b''" and ?x1.0 = "''=''" and ?x2.0 = "''=''"
       and ?l1.0 = 1 and ?c1.0 = 1 and ?l2.0 = 1 and ?c2.0 = 3 and ?l3.0 = 1 and ?c3.0 = 5
       and ?l4.0 = 1 and ?c4.0 = 7 and ?l5.0 = 1 and ?c5.0 = 9]
  by simp

text \<open>
  C7.  Multiplication binds tighter than addition: for the tokens number, \<^verbatim>\<open>+\<close>, number,
  \<^verbatim>\<open>*\<close>, number, and the end sentinel, \<^verbatim>\<open>parse()\<close> returns
  \<^verbatim>\<open>ADD(first, MULTIPLY(second, third))\<close>.  The product (address 3) is built by the
  multiplicative level, which the additive level calls for its right operand, before
  the sum (address 4).
\<close>

theorem multiplicative_binds_tighter:
  assumes "stod a = Some va" and "stod b = Some vb" and "stod c = Some vc"
    and "type e = TokenType.UNKNOWN" and "5 \<le> n"
  shows "parse stod n
           (InfixParser_init
              [Token TokenType.NUMBER a l1 c1, Token TokenType.ADD x1 l2 c2,
               Token TokenType.NUMBER b l3 c3, Token TokenType.MULTIPLY x2 l4 c4,
               Token TokenType.NUMBER c l5 c5, e]) =
         Some (Returns [Some (Node 4 NodeType.ADD 0 []
                          [Node 0 NodeType.NUMBER va [] [],
                           Node 3 NodeType.MULTIPLY 0 []
                             [Node 1 NodeType.NUMBER vb [] [], Node 2 NodeType.NUMBER vc [] []]])],
               \<lparr>tokens = [Token TokenType.NUMBER a l1 c1, Token TokenType.ADD x1 l2 c2,
                          Token TokenType.NUMBER b l3 c3, Token TokenType.MULTIPLY x2 l4 c4,
                          Token TokenType.NUMBER c l5 c5, e],
                currentTokenIndex = 5, root = None, unmatchedParentheses = 0,
                heap = {0, 1, 2, 3, 4}, nextAddr = 5\<rparr>)"
proof -
  from fuel_5 [OF assms(5)] obtain m where n: "n = Suc (Suc (Suc (Suc (Suc m))))"
    by blast
  obtain x3 l6 c6 where e: "e = Token TokenType.UNKNOWN x3 l6 c6"
    using assms(4) by (cases e) simp
  show ?thesis
    unfolding n e by (rule product_first_fuel) (rule assms(1-3))+
qed

text \<open>The instance of C7 for the text \<^verbatim>\<open>1 + 2 * 3\<close>, tokenised by the lexer.\<close>

theorem multiplicative_binds_tighter_witness:
  "tokenize ''1 + 2 * 3'' =
     Some [Token TokenType.NUMBER ''1'' 1 1, Token TokenType.ADD ''+'' 1 3,
           Token TokenType.NUMBER ''2'' 1 5, Token TokenType.MULTIPLY ''*'' 1 7,
           Token TokenType.NUMBER ''3'' 1 9, Token TokenType.UNKNOWN ''END'' 1 10]
   \<and> parse [''1'' \<mapsto> 1, ''2'' \<mapsto> 2, ''3'' \<mapsto> 3] 5
         (InfixParser_init
            [Token TokenType.NUMBER ''1'' 1 1, Token TokenType.ADD ''+'' 1 3,
             Token TokenType.NUMBER ''2'' 1 5, Token TokenType.MULTIPLY ''*'' 1 7,
             Token TokenType.NUMBER ''3'' 1 9, Token TokenType.UNKNOWN ''END'' 1 10]) =
       Some (Returns [Some (Node 4 NodeType.ADD 0 []
                        [Node 0 NodeType.NUMBER 1 [] [],
                         Node 3 NodeType.MULTIPLY 0 []
                           [Node 1 NodeType.NUMBER 2 [] [], Node 2 NodeType.NUMBER 3 [] []]])],
             \<lparr>tokens = [Token TokenType.NUMBER ''1'' 1 1, Token TokenType.ADD ''+'' 1 3,
                        Token TokenType.NUMBER ''2'' 1 5, Token TokenType.MULTIPLY ''*'' 1 7,
                        Token TokenType.NUMBER ''3'' 1 9, Token TokenType.UNKNOWN ''END'' 1 10],
              currentTokenIndex = 5, root = None, unmatchedParentheses = 0,
              heap = {0, 1, 2, 3, 4}, nextAddr = 5\<rparr>)"
  using multiplicative_binds_tighter
    [where stod = "[''1'' \<mapsto> 1, ''2'' \<mapsto> 2, ''3'' \<mapsto> 3]"
       and a = "''1''" and va = 1 and b = "''2''" and vb = 2 and c = "''3''" and vc = 3
       and e = "Token TokenType.UNKNOWN ''END'' 1 10" and n = 5
       and ?x1.0 = "''+''" and ?x2.0 = "''*''"
       and ?l1.0 = 1 and ?c1.0 = 1 and ?l2.0 = 1 and ?c2.0 = 3 and ?l3.0 = 1 and ?c3.0 = 5
       and ?l4.0 = 1 and ?c4.0 = 7 and ?l5.0 = 1 and ?c5.0 = 9]
  by (simp add: tokenize_1_plus_2_times_3)

section \<open>Leftover tokens on the line of a statement\<close>

text \<open>
  C1 on the text \<^verbatim>\<open>1 2\<close>.  \<^verbatim>\<open>parse()\<close> throws the unexpected-token error for the second
  number, at line 1, column 3.  The statement just parsed, the node of the first
  number at address 0, is still live afterwards: the loop before the \<^verbatim>\<open>throw\<close> and the
  handler clear the vector \<^verbatim>\<open>statements\<close> and \<^verbatim>\<open>root\<close>, and the local \<^verbatim>\<open>stmt\<close> is in
  neither.
\<close>

theorem parse_leftover_leaks_statement:
  "tokenize ''1 2'' =
     Some [Token TokenType.NUMBER ''1'' 1 1, Token TokenType.NUMBER ''2'' 1 3,
           Token TokenType.UNKNOWN ''END'' 1 4]
   \<and> parse [''1'' \<mapsto> 1] 3
         (InfixParser_init [Token TokenType.NUMBER ''1'' 1 1, Token TokenType.NUMBER ''2'' 1 3,
                            Token TokenType.UNKNOWN ''END'' 1 4]) =
       Some (Throws (UnexpectedToken 1 3 ''2''),
             \<lparr>tokens = [Token TokenType.NUMBER ''1'' 1 1, Token TokenType.NUMBER ''2'' 1 3,
                        Token TokenType.UNKNOWN ''END'' 1 4],
              currentTokenIndex = 1, root = None, unmatchedParentheses = 0,
              heap = {0}, nextAddr = 1\<rparr>)"
  using leftover_fuel [of "[''1'' \<mapsto> 1]" "''1''" 1 0 1 1 "''2''" 3 "''END''" 1 4]
  by (simp add: tokenize_1_2 numeral_3_eq_3)

section \<open>Teardown before an error propagates\<close>

text \<open>
  C2.  In a state of the free store that an execution can reach, whenever a level of
  the cascade throws, the live objects after the call are exactly those of before
  the call: everything the call allocated, the result built so far and a right-hand
  fragment not yet attached, has been deleted, whatever the tokens and however deep
  the nesting.  This is stated for \<^verbatim>\<open>expression()\<close> and for each of the nine levels, as
  \<^verbatim>\<open>expression()\<close> runs them (with \<^verbatim>\<open>expression()\<close> itself behind an opening
  parenthesis), for any fuel.
\<close>

theorem cascade_tears_down:
  assumes "store_ok s"
  shows "(expression stod n s = Some (Throws e, s') \<longrightarrow> heap s' = heap s)
    \<and> (assignmentExpression stod (expression stod m) n s = Some (Throws e, s')
          \<longrightarrow> heap s' = heap s)
    \<and> (logicalOrExpression stod (expression stod m) n s = Some (Throws e, s')
          \<longrightarrow> heap s' = heap s)
    \<and> (logicalXorExpression stod (expression stod m) n s = Some (Throws e, s')
          \<longrightarrow> heap s' = heap s)
    \<and> (logicalAndExpression stod (expression stod m) n s = Some (Throws e, s')
          \<longrightarrow> heap s' = heap s)
    \<and> (equalityExpression stod (expression stod m) n s = Some (Throws e, s')
          \<longrightarrow> heap s' = heap s)
    \<and> (relationalExpression stod (expression stod m) n s = Some (Throws e, s')
          \<longrightarrow> heap s' = heap s)
    \<and> (additiveExpression stod (expression stod m) n s = Some (Throws e, s')
          \<longrightarrow> heap s' = heap s)
    \<and> (multiplicativeExpression stod (expression stod m) n s = Some (Throws e, s')
          \<longrightarrow> heap s' = heap s)
    \<and> (factor stod (expression stod m) s = Some (Throws e, s') \<longrightarrow> heap s' = heap s)"
proof -
  note inner = expression_tidy [of stod m]
  show ?thesis
  proof (intro conjI impI)
    assume "expression stod n s = Some (Throws e, s')"
    from tidy_Throws(2) [OF expression_tidy assms this] show "heap s' = heap s" .
  next
    assume "assignmentExpression stod (expression stod m) n s = Some (Throws e, s')"
    from tidy_Throws(2) [OF assignmentExpression_tidy [OF inner] assms this]
    show "heap s' = heap s" .
  next
    assume "logicalOrExpression stod (expression stod m) n s = Some (Throws e, s')"
    from tidy_Throws(2) [OF logicalOrExpression_tidy [OF inner] assms this]
    show "heap s' = heap s" .
  next
    assume "logicalXorExpression stod (expression stod m) n s = Some (Throws e, s')"
    from tidy_Throws(2) [OF logicalXorExpression_tidy [OF inner] assms this]
    show "heap s' = heap s" .
  next
    assume "logicalAndExpression stod (expression stod m) n s = Some (Throws e, s')"
    from tidy_Throws(2) [OF logicalAndExpression_tidy [OF inner] assms this]
    show "heap s' = heap s" .
  next
    assume "equalityExpression stod (expression stod m) n s = Some (Throws e, s')"
    from tidy_Throws(2) [OF equalityExpression_tidy [OF inner] assms this]
    show "heap s' = heap s" .
  next
    assume "relationalExpression stod (expression stod m) n s = Some (Throws e, s')"
    from tidy_Throws(2) [OF relationalExpression_tidy [OF inner] assms this]
    show "heap s' = heap s" .
  next
    assume "additiveExpression stod (expression stod m) n s = Some (Throws e, s')"
    from tidy_Throws(2) [OF additiveExpression_tidy [OF inner] assms this]
    show "heap s' = heap s" .
  next
    assume "multiplicativeExpression stod (expression stod m) n s = Some (Throws e, s')"
    from tidy_Throws(2) [OF multiplicativeExpression_tidy [OF inner] assms this]
    show "heap s' = heap s" .
  next
    assume "factor stod (expression stod m) s = Some (Throws e, s')"
    from tidy_Throws(2) [OF factor_tidy [OF inner] assms this]
    show "heap s' = heap s" .
  qed
qed

text \<open>
  The instance of C2 for the tokens of \<^verbatim>\<open>1 + 2 * )\<close> at the additive level: the level
  has built the node of \<^verbatim>\<open>1\<close>, the multiplicative level the node of \<^verbatim>\<open>2\<close>, when
  \<^verbatim>\<open>factor()\<close> throws at the closing parenthesis.  Two nodes have been allocated and
  none is live afterwards.
\<close>

theorem cascade_tears_down_witness:
  "store_ok
     (InfixParser_init
        [Token TokenType.NUMBER ''1'' 1 1, Token TokenType.ADD ''+'' 1 3,
         Token TokenType.NUMBER ''2'' 1 5, Token TokenType.MULTIPLY ''*'' 1 7,
         Token TokenType.RIGHT_PAREN '')'' 1 9, Token TokenType.UNKNOWN ''END'' 1 10])
   \<and> additiveExpression [''1'' \<mapsto> 1, ''2'' \<mapsto> 2] (expression [''1'' \<mapsto> 1, ''2'' \<mapsto> 2] 0) 3
         (InfixParser_init
            [Token TokenType.NUMBER ''1'' 1 1, Token TokenType.ADD ''+'' 1 3,
             Token TokenType.NUMBER ''2'' 1 5, Token TokenType.MULTIPLY ''*'' 1 7,
             Token TokenType.RIGHT_PAREN '')'' 1 9, Token TokenType.UNKNOWN ''END'' 1 10]) =
       Some (Throws (UnexpectedToken 1 9 '')''),
             \<lparr>tokens = [Token TokenType.NUMBER ''1'' 1 1, Token TokenType.ADD ''+'' 1 3,
                        Token TokenType.NUMBER ''2'' 1 5, Token TokenType.MULTIPLY ''*'' 1 7,
                        Token TokenType.RIGHT_PAREN '')'' 1 9, Token TokenType.UNKNOWN ''END'' 1 10],
              currentTokenIndex = 4, root = None, unmatchedParentheses = 0,
              heap = {}, nextAddr = 2\<rparr>)
   \<and> heap \<lparr>tokens = [Token TokenType.NUMBER ''1'' 1 1, Token TokenType.ADD ''+'' 1 3,
                    Token TokenType.NUMBER ''2'' 1 5, Token TokenType.MULTIPLY ''*'' 1 7,
                    Token TokenType.RIGHT_PAREN '')'' 1 9, Token TokenType.UNKNOWN ''END'' 1 10],
             currentTokenIndex = 4, root = None, unmatchedParentheses = 0,
             heap = {}, nextAddr = 2\<rparr>
       = heap (InfixParser_init
                [Token TokenType.NUMBER ''1'' 1 1, Token TokenType.ADD ''+'' 1 3,
                 Token TokenType.NUMBER ''2'' 1 5, Token TokenType.MULTIPLY ''*'' 1 7,
                 Token TokenType.RIGHT_PAREN '')'' 1 9, Token TokenType.UNKNOWN ''END'' 1 10])"
  (is "store_ok ?s \<and> ?run = Some (Throws ?e, ?s') \<and> heap ?s' = heap ?s")
proof -
  have ok: "store_ok ?s"
    by (simp add: store_ok_def InfixParser_init_def)
  have run: "?run = Some (Throws ?e, ?s')"
    by (simp add: cascade_defs eval_nat_numeral)
  from cascade_tears_down [OF ok, of "[''1'' \<mapsto> 1, ''2'' \<mapsto> 2]" 3 ?e ?s' 0] run
  have "heap ?s' = heap ?s"
    by blast
  with ok run show ?thesis
    by blast
qed

text \<open>
  C8.  When the left operand of an assignment has been parsed to a node that is no
  identifier and the current token is \<^verbatim>\<open>=\<close>, \<^verbatim>\<open>assignmentExpression()\<close> throws the
  unexpected-token error with the line, column and text of the \<^verbatim>\<open>=\<close> token.  The state
  it leaves is the state after the left operand with the live objects of before the
  call: the left subtree has been deleted, the allocation counter has not moved since
  the left operand (no \<^verbatim>\<open>ASSIGN\<close> node was allocated), and the \<^verbatim>\<open>=\<close> token has not been
  passed.
\<close>

theorem assignment_to_non_identifier:
  assumes "store_ok s"
    and "logicalOrExpression stod (expression stod m) n s = Some (Returns node, s1)"
    and "currentToken s1 = Some opTok" and "type opTok = TokenType.ASSIGN"
    and "ntype node \<noteq> NodeType.IDENTIFIER"
  shows "assignmentExpression stod (expression stod m) (Suc n) s =
           Some (Throws (UnexpectedToken (line opTok) (column opTok) (tvalue opTok)),
                 s1\<lparr>heap := heap s\<rparr>)"
proof -
  note post = tidy_Returns [OF logicalOrExpression_tidy [OF expression_tidy] assms(1,2)]
  have "heap s \<inter> addrs node = {}"
    using fresh_apart [OF assms(1) post(2)] .
  with post(3) have "heap s1 - addrs node = heap s"
    by blast
  with assms(3-5) show ?thesis
    unfolding assignment_after_left [OF assms(2)] by simp
qed

text \<open>
  The instance of C8 for the tokens of \<^verbatim>\<open>5 = 3\<close>: the error names line 1, column 3 and
  the text \<^verbatim>\<open>=\<close>; one node was allocated (the number 5) and none is live.
\<close>

theorem assignment_to_non_identifier_witness:
  "store_ok
     (InfixParser_init
        [Token TokenType.NUMBER ''5'' 1 1, Token TokenType.ASSIGN ''='' 1 3,
         Token TokenType.NUMBER ''3'' 1 5, Token TokenType.UNKNOWN ''END'' 1 6])
   \<and> logicalOrExpression [''5'' \<mapsto> 5, ''3'' \<mapsto> 3] (expression [''5'' \<mapsto> 5, ''3'' \<mapsto> 3] 0) 1
         (InfixParser_init
            [Token TokenType.NUMBER ''5'' 1 1, Token TokenType.ASSIGN ''='' 1 3,
             Token TokenType.NUMBER ''3'' 1 5, Token TokenType.UNKNOWN ''END'' 1 6]) =
       Some (Returns (Node 0 NodeType.NUMBER 5 [] []),
             \<lparr>tokens = [Token TokenType.NUMBER ''5'' 1 1, Token TokenType.ASSIGN ''='' 1 3,
                        Token TokenType.NUMBER ''3'' 1 5, Token TokenType.UNKNOWN ''END'' 1 6],
              currentTokenIndex = 1, root = None, unmatchedParentheses = 0,
              heap = {0}, nextAddr = 1\<rparr>)
   \<and> assignmentExpression [''5'' \<mapsto> 5, ''3'' \<mapsto> 3] (expression [''5'' \<mapsto> 5, ''3'' \<mapsto> 3] 0) 2
         (InfixParser_init
            [Token TokenType.NUMBER ''5'' 1 1, Token TokenType.ASSIGN ''='' 1 3,
             Token TokenType.NUMBER ''3'' 1 5, Token TokenType.UNKNOWN ''END'' 1 6]) =
       Some (Throws (UnexpectedToken 1 3 ''=''),
             \<lparr>tokens = [Token TokenType.NUMBER ''5'' 1 1, Token TokenType.ASSIGN ''='' 1 3,
                        Token TokenType.NUMBER ''3'' 1 5, Token TokenType.UNKNOWN ''END'' 1 6],
              currentTokenIndex = 1, root = None, unmatchedParentheses = 0,
              heap = {}, nextAddr = 1\<rparr>)"
  (is "store_ok ?s \<and> ?left = Some (Returns ?node, ?s1) \<and> ?run = Some (Throws ?e, ?s')")
proof -
  have ok: "store_ok ?s"
    by (simp add: store_ok_def InfixParser_init_def)
  have left: "?left = Some (Returns ?node, ?s1)"
    by (simp add: cascade_defs eval_nat_numeral)
  have tok: "currentToken ?s1 = Some (Token TokenType.ASSIGN ''='' 1 3)"
    by (simp add: currentToken_def)
  have "assignmentExpression [''5'' \<mapsto> 5, ''3'' \<mapsto> 3] (expression [''5'' \<mapsto> 5, ''3'' \<mapsto> 3] 0)
          (Suc 1) ?s =
        Some (Throws (UnexpectedToken (line (Token TokenType.ASSIGN ''='' 1 3))
                        (column (Token TokenType.ASSIGN ''='' 1 3))
                        (tvalue (Token TokenType.ASSIGN ''='' 1 3))),
              ?s1\<lparr>heap := heap ?s\<rparr>)"
    by (rule assignment_to_non_identifier [OF ok left tok]) simp_all
  then have "?run = Some (Throws ?e, ?s')"
    by (simp add: InfixParser_init_def numeral_2_eq_2 del: assignmentExpression.simps)
  with ok left show ?thesis
    by blast
qed

text \<open>
  C9.  When \<^verbatim>\<open>factor()\<close> stands at an opening parenthesis, \<^verbatim>\<open>expression()\<close> returns a
  subtree, and the token after it is no closing parenthesis, \<^verbatim>\<open>factor()\<close> throws the
  unexpected-token error with the line, column and text of that token, the one
  where the closing parenthesis is missing.  The state it leaves is the state after
  the subexpression with the live objects of before the call: the subtree has been
  deleted.
\<close>

theorem unmatched_parenthesis:
  assumes "store_ok s" and "currentToken s = Some tok" and "type tok = TokenType.LEFT_PAREN"
    and "expression stod m (advance (s\<lparr>unmatchedParentheses := unmatchedParentheses s + 1\<rparr>)) =
           Some (Returns node, s1)"
    and "currentToken s1 = Some t" and "type t \<noteq> TokenType.RIGHT_PAREN"
  shows "factor stod (expression stod m) s =
           Some (Throws (UnexpectedToken (line t) (column t) (tvalue t)), s1\<lparr>heap := heap s\<rparr>)"
proof -
  let ?s0 = "advance (s\<lparr>unmatchedParentheses := unmatchedParentheses s + 1\<rparr>)"
  have ok0: "store_ok ?s0"
    using assms(1) by simp
  note post = tidy_Returns [OF expression_tidy ok0 assms(4)]
  have "heap ?s0 \<inter> addrs node = {}"
    using fresh_apart [OF ok0 post(2)] .
  with post(3) have "heap s1 - addrs node = heap s"
    by auto
  with assms(4-6) show ?thesis
    unfolding factor_paren [OF assms(2,3)] by simp
qed

text \<open>
  The instance of C9 for the text \<^verbatim>\<open>(1 + 2\<close>: the error names line 1, column 7 and the
  text of the end sentinel, not the parenthesis at column 1; three nodes were
  allocated and none is live.  \<^verbatim>\<open>parse()\<close> passes the same error on and leaves no live
  node either.
\<close>

theorem unmatched_parenthesis_witness:
  "tokenize ''(1 + 2'' =
     Some [Token TokenType.LEFT_PAREN ''('' 1 1, Token TokenType.NUMBER ''1'' 1 2,
           Token TokenType.ADD ''+'' 1 4, Token TokenType.NUMBER ''2'' 1 6,
           Token TokenType.UNKNOWN ''END'' 1 7]
   \<and> factor [''1'' \<mapsto> 1, ''2'' \<mapsto> 2] (expression [''1'' \<mapsto> 1, ''2'' \<mapsto> 2] 3)
         (InfixParser_init
            [Token TokenType.LEFT_PAREN ''('' 1 1, Token TokenType.NUMBER ''1'' 1 2,
             Token TokenType.ADD ''+'' 1 4, Token TokenType.NUMBER ''2'' 1 6,
             Token TokenType.UNKNOWN ''END'' 1 7]) =
       Some (Throws (UnexpectedToken 1 7 ''END''),
             \<lparr>tokens = [Token TokenType.LEFT_PAREN ''('' 1 1, Token TokenType.NUMBER ''1'' 1 2,
                        Token TokenType.ADD ''+'' 1 4, Token TokenType.NUMBER ''2'' 1 6,
                        Token TokenType.UNKNOWN ''END'' 1 7],
              currentTokenIndex = 4, root = None, unmatchedParentheses = 1,
              heap = {}, nextAddr = 3\<rparr>)
   \<and> parse [''1'' \<mapsto> 1, ''2'' \<mapsto> 2] 6
         (InfixParser_init
            [Token TokenType.LEFT_PAREN ''('' 1 1, Token TokenType.NUMBER ''1'' 1 2,
             Token TokenType.ADD ''+'' 1 4, Token TokenType.NUMBER ''2'' 1 6,
             Token TokenType.UNKNOWN ''END'' 1 7]) =
       Some (Throws (UnexpectedToken 1 7 ''END''),
             \<lparr>tokens = [Token TokenType.LEFT_PAREN ''('' 1 1, Token TokenType.NUMBER ''1'' 1 2,
                        Token TokenType.ADD ''+'' 1 4, Token TokenType.NUMBER ''2'' 1 6,
                        Token TokenType.UNKNOWN ''END'' 1 7],
              currentTokenIndex = 4, root = None, unmatchedParentheses = 1,
              heap = {}, nextAddr = 3\<rparr>)"
  (is "?lex \<and> factor ?stod ?expr ?s = Some (Throws ?e, ?s') \<and> ?top")
proof -
  have lex: ?lex
    by code_simp
  have ok: "store_ok ?s"
    by (simp add: store_ok_def InfixParser_init_def)
  have tok: "currentToken ?s = Some (Token TokenType.LEFT_PAREN ''('' 1 1)"
    by (simp add: currentToken_def InfixParser_init_def)
  have inner: "expression ?stod 3 (advance (?s\<lparr>unmatchedParentheses := unmatchedParentheses ?s + 1\<rparr>)) =
      Some (Returns (Node 2 NodeType.ADD 0 []
                       [Node 0 NodeType.NUMBER 1 [] [], Node 1 NodeType.NUMBER 2 [] []]),
            \<lparr>tokens = [Token TokenType.LEFT_PAREN ''('' 1 1, Token TokenType.NUMBER ''1'' 1 2,
                       Token TokenType.ADD ''+'' 1 4, Token TokenType.NUMBER ''2'' 1 6,
                       Token TokenType.UNKNOWN ''END'' 1 7],
             currentTokenIndex = 4, root = None, unmatchedParentheses = 1,
             heap = {0, 1, 2}, nextAddr = 3\<rparr>)"
    (is "_ = Some (Returns ?node, ?s1)")
    by (auto simp add: cascade_defs eval_nat_numeral)
  have nxt: "currentToken ?s1 = Some (Token TokenType.UNKNOWN ''END'' 1 7)"
    by (simp add: currentToken_def)
  have "factor ?stod ?expr ?s =
          Some (Throws (UnexpectedToken (line (Token TokenType.UNKNOWN ''END'' 1 7))
                          (column (Token TokenType.UNKNOWN ''END'' 1 7))
                          (tvalue (Token TokenType.UNKNOWN ''END'' 1 7))),
                ?s1\<lparr>heap := heap ?s\<rparr>)"
    by (rule unmatched_parenthesis [OF ok tok _ inner nxt]) simp_all
  then have run: "factor ?stod ?expr ?s = Some (Throws ?e, ?s')"
    by (simp add: InfixParser_init_def)
  have top: ?top
    by (auto simp add: cascade_defs eval_nat_numeral)
  from lex run top show ?thesis
    by blast
qed

end
